theory Spec2Isabelle
  imports Main
begin

section \<open>Python values and exceptions\<close>

text \<open>
  The notebook stores a board as a tuple of tuples of cell values. A cell is a Python
  integer, or \<open>None\<close> in the scratch matrix that \<open>apply_symmetry\<close> fills in; cells are
  therefore modelled as \<open>int option\<close>, with \<open>None\<close> for Python's \<open>None\<close>. The
  exceptions the code can raise are values of the type \<open>error\<close>.
\<close>

datatype error = IndexError | ZeroDivisionError | TypeError

type_synonym cell = "int option"
type_synonym rectangle = "cell list list"

text \<open>Reading \<open>xs[i]\<close> at a non-negative index raises \<open>IndexError\<close> out of range.\<close>

definition nth_py :: "'a list \<Rightarrow> nat \<Rightarrow> error + 'a" where
  "nth_py xs i = (if i < length xs then Inr (xs ! i) else Inl IndexError)"

text \<open>The assignment \<open>m[i][j] = v\<close> on a list of lists.\<close>

definition assign2 :: "'a list list \<Rightarrow> nat \<Rightarrow> nat \<Rightarrow> 'a \<Rightarrow> error + 'a list list" where
  "assign2 m i j v =
     (if i < length m \<and> j < length (m ! i) then Inr (m[i := (m ! i)[j := v]])
      else Inl IndexError)"

text \<open>Python's \<open>a % b\<close> on integers: the result has the sign of the divisor.\<close>

definition py_mod :: "int \<Rightarrow> int \<Rightarrow> error + int" where
  "py_mod a b = (if b = 0 then Inl ZeroDivisionError else Inr (a mod b))"

text \<open>Python's \<open>s + v\<close> where \<open>s\<close> is an integer and \<open>v\<close> a cell.\<close>

definition py_add :: "int \<Rightarrow> cell \<Rightarrow> error + int" where
  "py_add s v = (case v of None \<Rightarrow> Inl TypeError | Some x \<Rightarrow> Inr (s + x))"

text \<open>A \<open>for\<close> loop over a list that threads a state and stops at the first exception.\<close>

fun for_each :: "('a \<Rightarrow> 's \<Rightarrow> error + 's) \<Rightarrow> 'a list \<Rightarrow> 's \<Rightarrow> error + 's" where
  "for_each body [] st = Inr st"
| "for_each body (x # xs) st =
     (case body x st of Inl e \<Rightarrow> Inl e | Inr st' \<Rightarrow> for_each body xs st')"

section \<open>The class \<open>life_pattern\<close>\<close>

definition tuplefy_rectangle :: "rectangle \<Rightarrow> rectangle" where
  "tuplefy_rectangle rect = map (\<lambda>row. row) rect"

record life_pattern =
  config :: rectangle
  height :: nat
  width :: nat

text \<open>
  The constructor \<open>__init__\<close>: no check of the matrix is made; \<open>config[0]\<close> raises
  \<open>IndexError\<close> on the empty matrix.
\<close>

definition life_pattern :: "rectangle \<Rightarrow> error + life_pattern" where
  "life_pattern cfg =
     (case nth_py cfg 0 of
        Inl e \<Rightarrow> Inl e
      | Inr row0 \<Rightarrow>
          Inr \<lparr>config = tuplefy_rectangle cfg, height = length cfg, width = length row0\<rparr>)"

text \<open>\<open>__eq__\<close> and \<open>__ne__\<close> compare the stored configurations.\<close>

definition pattern_eq :: "life_pattern \<Rightarrow> life_pattern \<Rightarrow> bool" where
  "pattern_eq a b = (config a = config b)"

definition pattern_ne :: "life_pattern \<Rightarrow> life_pattern \<Rightarrow> bool" where
  "pattern_ne a b = (config a \<noteq> config b)"

definition copy :: "life_pattern \<Rightarrow> error + life_pattern" where
  "copy p = life_pattern (config p)"

definition directions :: "(int \<times> int) list" where
  "directions = [(1, 0), (1, 1), (0, 1), (-1, 1), (-1, 0), (-1, -1), (0, -1), (1, -1)]"

text \<open>The innermost loop of \<open>step\<close>: the sum \<open>s\<close> over the eight directions.\<close>

definition add_neighbour :: "life_pattern \<Rightarrow> nat \<Rightarrow> nat \<Rightarrow> int \<times> int \<Rightarrow> int \<Rightarrow> error + int" where
  "add_neighbour p i j d s =
     (case py_mod (int i + fst d) (int (height p)) of
        Inl e \<Rightarrow> Inl e
      | Inr ii \<Rightarrow>
         (case py_mod (int j + snd d) (int (width p)) of
            Inl e \<Rightarrow> Inl e
          | Inr jj \<Rightarrow>
             (case nth_py (config p) (nat ii) of
                Inl e \<Rightarrow> Inl e
              | Inr row \<Rightarrow>
                 (case nth_py row (nat jj) of
                    Inl e \<Rightarrow> Inl e
                  | Inr v \<Rightarrow> py_add s v))))"

text \<open>
  The body of the loop over \<open>j\<close>. The test \<open>s == 3 or (config[i][j] == 1 and s == 2)\<close>
  reads \<open>config[i][j]\<close> only when \<open>s\<close> is not 3.
\<close>

definition step_cell :: "life_pattern \<Rightarrow> nat \<Rightarrow> nat \<Rightarrow> rectangle \<Rightarrow> error + rectangle" where
  "step_cell p i j new_config =
     (case for_each (add_neighbour p i j) directions 0 of
        Inl e \<Rightarrow> Inl e
      | Inr s \<Rightarrow>
          if s = 3 then assign2 new_config i j (Some 1)
          else
            (case nth_py (config p) i of
               Inl e \<Rightarrow> Inl e
             | Inr row \<Rightarrow>
                (case nth_py row j of
                   Inl e \<Rightarrow> Inl e
                 | Inr v \<Rightarrow>
                     if v = Some 1 \<and> s = 2 then assign2 new_config i j (Some 1)
                     else Inr new_config)))"

definition step :: "life_pattern \<Rightarrow> error + life_pattern" where
  "step p =
     (case for_each (\<lambda>i. for_each (step_cell p i) [0..<width p]) [0..<height p]
             (replicate (height p) (replicate (width p) (Some 0))) of
        Inl e \<Rightarrow> Inl e
      | Inr new_config \<Rightarrow> life_pattern new_config)"

text \<open>
  \<open>apply_symmetry\<close>: a scratch matrix of \<open>None\<close> with the row lengths of the
  configuration is filled in from the table \<open>symmetry\<close>, whose entry \<open>(i, j)\<close> names
  the source cell \<open>(k, l)\<close>. Cells the table does not reach stay \<open>None\<close>.
\<close>

type_synonym symmetry = "(nat \<times> nat) list list"

definition apply_cell ::
  "life_pattern \<Rightarrow> nat \<Rightarrow> nat \<times> (nat \<times> nat) \<Rightarrow> rectangle \<Rightarrow> error + rectangle" where
  "apply_cell p i jp new_config =
     (case jp of (j, (k, l)) \<Rightarrow>
        (case nth_py (config p) k of
           Inl e \<Rightarrow> Inl e
         | Inr row \<Rightarrow>
            (case nth_py row l of
               Inl e \<Rightarrow> Inl e
             | Inr v \<Rightarrow> assign2 new_config i j v)))"

definition apply_symmetry :: "life_pattern \<Rightarrow> symmetry \<Rightarrow> error + life_pattern" where
  "apply_symmetry p symmetry =
     (case for_each (\<lambda>(i, row). for_each (apply_cell p i) (enumerate 0 row))
             (enumerate 0 symmetry)
             (map (\<lambda>row. replicate (length row) None) (config p)) of
        Inl e \<Rightarrow> Inl e
      | Inr new_config \<Rightarrow> life_pattern new_config)"

section \<open>Floyd's cycle detection\<close>

text \<open>
  The three \<open>while\<close> loops of \<open>detect_cycle\<close>. A loop that never ends has the value
  \<open>None\<close>; an exception raised by \<open>step\<close> ends it with \<open>Some (Inl e)\<close>.
\<close>

partial_function (option) find_repetition ::
  "life_pattern \<Rightarrow> life_pattern \<Rightarrow> (error + life_pattern \<times> life_pattern) option" where
  "find_repetition tortoise hare =
     (if pattern_ne tortoise hare then
        (case step tortoise of
           Inl e \<Rightarrow> Some (Inl e)
         | Inr tortoise' \<Rightarrow>
            (case step hare of
               Inl e \<Rightarrow> Some (Inl e)
             | Inr hare1 \<Rightarrow>
                (case step hare1 of
                   Inl e \<Rightarrow> Some (Inl e)
                 | Inr hare' \<Rightarrow> find_repetition tortoise' hare')))
      else Some (Inr (tortoise, hare)))"

partial_function (option) find_position ::
  "life_pattern \<Rightarrow> life_pattern \<Rightarrow> nat \<Rightarrow> (error + life_pattern \<times> life_pattern \<times> nat) option" where
  "find_position tortoise hare first_rep =
     (if pattern_ne tortoise hare then
        (case step tortoise of
           Inl e \<Rightarrow> Some (Inl e)
         | Inr tortoise' \<Rightarrow>
            (case step hare of
               Inl e \<Rightarrow> Some (Inl e)
             | Inr hare' \<Rightarrow> find_position tortoise' hare' (first_rep + 1)))
      else Some (Inr (tortoise, hare, first_rep)))"

partial_function (option) find_length ::
  "life_pattern \<Rightarrow> life_pattern \<Rightarrow> nat \<Rightarrow> (error + nat) option" where
  "find_length tortoise hare period =
     (if pattern_ne tortoise hare then
        (case step hare of
           Inl e \<Rightarrow> Some (Inl e)
         | Inr hare' \<Rightarrow> find_length tortoise hare' (period + 1))
      else Some (Inr period))"

declare find_repetition.simps [code]
declare find_position.simps [code]
declare find_length.simps [code]

definition detect_cycle :: "life_pattern \<Rightarrow> (error + nat \<times> nat) option" where
  "detect_cycle pattern =
     (case step pattern of
        Inl e \<Rightarrow> Some (Inl e)
      | Inr tortoise1 \<Rightarrow>
     (case step tortoise1 of
        Inl e \<Rightarrow> Some (Inl e)
      | Inr hare1 \<Rightarrow>
     (case find_repetition tortoise1 hare1 of
        None \<Rightarrow> None
      | Some (Inl e) \<Rightarrow> Some (Inl e)
      | Some (Inr (_, hare2)) \<Rightarrow>
     (case copy pattern of
        Inl e \<Rightarrow> Some (Inl e)
      | Inr tortoise2 \<Rightarrow>
     (case find_position tortoise2 hare2 0 of
        None \<Rightarrow> None
      | Some (Inl e) \<Rightarrow> Some (Inl e)
      | Some (Inr (tortoise3, _, first_rep)) \<Rightarrow>
     (case step tortoise3 of
        Inl e \<Rightarrow> Some (Inl e)
      | Inr hare3 \<Rightarrow>
     (case find_length tortoise3 hare3 1 of
        None \<Rightarrow> None
      | Some (Inl e) \<Rightarrow> Some (Inl e)
      | Some (Inr period) \<Rightarrow> Some (Inr (first_rep, period)))))))))"

section \<open>The symmetries of a rectangle\<close>

text \<open>Python's \<open>range(n)\<close>: empty when \<open>n\<close> is not positive.\<close>

definition py_range :: "int \<Rightarrow> nat list" where
  "py_range n = [0..<nat n]"

text \<open>The generator \<open>rectangle_symmetries\<close>, as the list of the tables it yields.\<close>

definition rectangle_symmetries :: "int \<Rightarrow> int \<Rightarrow> bool \<Rightarrow> symmetry list" where
  "rectangle_symmetries m n skip_id =
     (let start_rect = map (\<lambda>i. map (\<lambda>j. (i, j)) (py_range n)) (py_range m);
          new_rect1 = map rev start_rect;
          new_rect2 = rev start_rect;
          new_rect3 = map rev new_rect2
      in (if \<not> skip_id then [start_rect] else []) @
         [new_rect1, new_rect2, new_rect3] @
         (if m \<noteq> n then []
          else
            (let start_rect' = map (\<lambda>i. map (\<lambda>j. (j, i)) (py_range n)) (py_range m);
                 new_rect4 = map rev start_rect';
                 new_rect5 = rev start_rect';
                 new_rect6 = map rev new_rect5
             in [start_rect', new_rect4, new_rect5, new_rect6])))"

section \<open>The exhaustive search\<close>

text \<open>\<open>itertools.combinations\<close>: the \<open>k\<close>-element subsequences, in lexicographic order.\<close>

fun combinations :: "'a list \<Rightarrow> nat \<Rightarrow> 'a list list" where
  "combinations xs 0 = [[]]"
| "combinations [] (Suc k) = []"
| "combinations (x # xs) (Suc k) = map ((#) x) (combinations xs k) @ combinations xs (Suc k)"

text \<open>
  A Python set of patterns: membership and insertion go through \<open>__eq__\<close>, and \<open>add\<close>
  keeps the element already present.
\<close>

definition member_py :: "life_pattern \<Rightarrow> life_pattern set \<Rightarrow> bool" where
  "member_py x S = (\<exists>y\<in>S. pattern_eq y x)"

definition add_py :: "life_pattern \<Rightarrow> life_pattern set \<Rightarrow> life_pattern set" where
  "add_py x S = (if member_py x S then S else insert x S)"

text \<open>A \<open>for\<close> loop whose body may also fail to return.\<close>

fun for_each_opt ::
  "('a \<Rightarrow> 's \<Rightarrow> (error + 's) option) \<Rightarrow> 'a list \<Rightarrow> 's \<Rightarrow> (error + 's) option" where
  "for_each_opt body [] st = Some (Inr st)"
| "for_each_opt body (x # xs) st =
     (case body x st of
        None \<Rightarrow> None
      | Some (Inl e) \<Rightarrow> Some (Inl e)
      | Some (Inr st') \<Rightarrow> for_each_opt body xs st')"

text \<open>
  The list comprehension inside \<open>any\<close> applies every symmetry before any membership
  is looked at.
\<close>

fun symmetric_images :: "life_pattern \<Rightarrow> symmetry list \<Rightarrow> error + life_pattern list" where
  "symmetric_images p [] = Inr []"
| "symmetric_images p (s # ss) =
     (case apply_symmetry p s of
        Inl e \<Rightarrow> Inl e
      | Inr q \<Rightarrow>
         (case symmetric_images p ss of
            Inl e \<Rightarrow> Inl e
          | Inr qs \<Rightarrow> Inr (q # qs)))"

text \<open>The body of the loop over the subsets; the state is \<open>(visited, oscillators)\<close>.\<close>

definition examine ::
  "int \<Rightarrow> (nat \<times> nat) list \<Rightarrow> life_pattern set \<times> life_pattern set \<Rightarrow>
   (error + life_pattern set \<times> life_pattern set) option" where
  "examine n subs st =
     (case st of (visited, oscillators) \<Rightarrow>
     (case for_each (\<lambda>(i, j) cfg. assign2 cfg i j (Some 1)) subs
             (replicate 3 (replicate (nat n) (Some 0))) of
        Inl e \<Rightarrow> Some (Inl e)
      | Inr cfg \<Rightarrow>
     (case life_pattern cfg of
        Inl e \<Rightarrow> Some (Inl e)
      | Inr pattern \<Rightarrow>
     (case symmetric_images pattern (rectangle_symmetries 3 n True) of
        Inl e \<Rightarrow> Some (Inl e)
      | Inr images \<Rightarrow>
          if list_ex (\<lambda>q. member_py q visited) images then Some (Inr (visited, oscillators))
          else
            (let visited1 = add_py pattern visited in
             (case detect_cycle pattern of
                None \<Rightarrow> None
              | Some (Inl e) \<Rightarrow> Some (Inl e)
              | Some (Inr (first_rep, period)) \<Rightarrow>
                  if period > 1 then
                    (case for_each (\<lambda>i q. step q) [0..<first_rep] pattern of
                       Inl e \<Rightarrow> Some (Inl e)
                     | Inr pattern' \<Rightarrow>
                         Some (Inr (add_py pattern' visited1, add_py pattern' oscillators)))
                  else Some (Inr (visited1, oscillators))))))))"

definition find_oscillators :: "int \<Rightarrow> (error + life_pattern set) option" where
  "find_oscillators n =
     (let pairs = List.product (py_range 3) (py_range n) in
      (case for_each_opt (\<lambda>k. for_each_opt (examine n) (combinations pairs k))
              (py_range (int (length pairs) + 1)) ({}, {}) of
         None \<Rightarrow> None
       | Some (Inl e) \<Rightarrow> Some (Inl e)
       | Some (Inr (visited, oscillators)) \<Rightarrow> Some (Inr oscillators)))"

section \<open>Well-formed boards\<close>

text \<open>A matrix is rectangular when all its rows have the length of the first one.\<close>

definition rectangular :: "rectangle \<Rightarrow> bool" where
  "rectangular cfg = (\<forall>row\<in>set cfg. length row = length (hd cfg))"

text \<open>A matrix is binary when each of its cells is the integer 0 or the integer 1.\<close>

definition binary :: "rectangle \<Rightarrow> bool" where
  "binary cfg = (\<forall>row\<in>set cfg. \<forall>v\<in>set row. v = Some 0 \<or> v = Some 1)"

text \<open>The glider of the notebook.\<close>

definition glider :: rectangle where
  "glider = map (map Some)
     [[0, 1, 0, 0, 0], [0, 0, 1, 0, 0], [1, 1, 1, 0, 0], [0, 0, 0, 0, 0], [0, 0, 0, 0, 0]]"

text \<open>
  A grid state is a pattern as the constructor builds it from a rectangular matrix: at
  least one row, every row of the width, and the height the number of rows.
\<close>

definition grid :: "life_pattern \<Rightarrow> bool" where
  "grid p \<longleftrightarrow>
     0 < height p \<and> length (config p) = height p \<and>
     (\<forall>row\<in>set (config p). length row = width p)"

definition integer_cells :: "rectangle \<Rightarrow> bool" where
  "integer_cells cfg \<longleftrightarrow> (\<forall>row\<in>set cfg. None \<notin> set row)"

text \<open>The integer in the cell at a position taken modulo the height and the width.\<close>

definition cell_at :: "life_pattern \<Rightarrow> int \<Rightarrow> int \<Rightarrow> int" where
  "cell_at p a b = the (config p ! nat (a mod int (height p)) ! nat (b mod int (width p)))"

text \<open>
  The update rule in the words of the specification: the sum over the eight toroidal
  neighbours of a cell, each written out by its offset (south, south-east, east,
  north-east, north, north-west, west, south-west), and the cell that is alive
  afterwards.
\<close>

definition neighbour_count :: "life_pattern \<Rightarrow> nat \<Rightarrow> nat \<Rightarrow> int" where
  "neighbour_count p i j =
     cell_at p (int i + 1) (int j) + cell_at p (int i + 1) (int j + 1) +
     cell_at p (int i) (int j + 1) + cell_at p (int i - 1) (int j + 1) +
     cell_at p (int i - 1) (int j) + cell_at p (int i - 1) (int j - 1) +
     cell_at p (int i) (int j - 1) + cell_at p (int i + 1) (int j - 1)"

definition alive_next :: "life_pattern \<Rightarrow> nat \<Rightarrow> nat \<Rightarrow> bool" where
  "alive_next p i j \<longleftrightarrow>
     neighbour_count p i j = 3 \<or> (neighbour_count p i j = 2 \<and> config p ! i ! j = Some 1)"

definition next_config :: "life_pattern \<Rightarrow> rectangle" where
  "next_config p =
     map (\<lambda>i. map (\<lambda>j. if alive_next p i j then Some 1 else Some 0) [0..<width p])
       [0..<height p]"

definition next_pattern :: "life_pattern \<Rightarrow> life_pattern" where
  "next_pattern p = \<lparr>config = next_config p, height = height p, width = width p\<rparr>"

text \<open>The state of the new matrix of \<open>step\<close> before cell \<open>(i, j)\<close>.\<close>

definition filled :: "life_pattern \<Rightarrow> nat \<Rightarrow> nat \<Rightarrow> rectangle \<Rightarrow> bool" where
  "filled p i j nc \<longleftrightarrow>
     length nc = height p \<and>
     (\<forall>r<height p. length (nc ! r) = width p \<and>
        (\<forall>c<width p. nc ! r ! c =
           (if (r < i \<or> (r = i \<and> c < j)) \<and> alive_next p r c then Some 1 else Some 0)))"

text \<open>
  A table fits a board of height \<open>H\<close> and width \<open>W\<close> when it has that shape and names
  cells of the board only; \<open>remap\<close> is the matrix it then produces.
\<close>

definition table_for :: "nat \<Rightarrow> nat \<Rightarrow> symmetry \<Rightarrow> bool" where
  "table_for H W t \<longleftrightarrow>
     length t = H \<and> (\<forall>row\<in>set t. length row = W \<and> (\<forall>kl\<in>set row. fst kl < H \<and> snd kl < W))"

definition remap :: "rectangle \<Rightarrow> symmetry \<Rightarrow> rectangle" where
  "remap cfg t = map (map (\<lambda>kl. cfg ! fst kl ! snd kl)) t"

definition remap_pattern :: "life_pattern \<Rightarrow> symmetry \<Rightarrow> life_pattern" where
  "remap_pattern p t = \<lparr>config = remap (config p) t, height = height p, width = width p\<rparr>"

text \<open>The state of the scratch matrix of \<open>apply_symmetry\<close> before entry \<open>(i, j)\<close>.\<close>

definition copied :: "life_pattern \<Rightarrow> symmetry \<Rightarrow> nat \<Rightarrow> nat \<Rightarrow> rectangle \<Rightarrow> bool" where
  "copied p t i j nc \<longleftrightarrow>
     length nc = height p \<and>
     (\<forall>r<height p. length (nc ! r) = width p \<and>
        (\<forall>c<width p. nc ! r ! c =
           (if r < i \<or> (r = i \<and> c < j) then config p ! fst (t ! r ! c) ! snd (t ! r ! c)
            else None)))"

text \<open>
  The table of a remapping \<open>f\<close> on a board of height \<open>H\<close> and width \<open>W\<close>, and the
  seven remappings by name: entry \<open>(i, j)\<close> of a table is the cell copied to \<open>(i, j)\<close>.
\<close>

definition table :: "nat \<Rightarrow> nat \<Rightarrow> (nat \<Rightarrow> nat \<Rightarrow> nat \<times> nat) \<Rightarrow> symmetry" where
  "table H W f = map (\<lambda>i. map (\<lambda>j. f i j) [0..<W]) [0..<H]"

definition horizontal_flip :: "nat \<Rightarrow> nat \<Rightarrow> symmetry" where
  "horizontal_flip H W = table H W (\<lambda>i j. (i, W - 1 - j))"

definition vertical_flip :: "nat \<Rightarrow> nat \<Rightarrow> symmetry" where
  "vertical_flip H W = table H W (\<lambda>i j. (H - 1 - i, j))"

definition rotation_180 :: "nat \<Rightarrow> nat \<Rightarrow> symmetry" where
  "rotation_180 H W = table H W (\<lambda>i j. (H - 1 - i, W - 1 - j))"

definition transposition :: "nat \<Rightarrow> nat \<Rightarrow> symmetry" where
  "transposition H W = table H W (\<lambda>i j. (j, i))"

definition transposition_hflip :: "nat \<Rightarrow> nat \<Rightarrow> symmetry" where
  "transposition_hflip H W = table H W (\<lambda>i j. (W - 1 - j, i))"

definition transposition_vflip :: "nat \<Rightarrow> nat \<Rightarrow> symmetry" where
  "transposition_vflip H W = table H W (\<lambda>i j. (j, H - 1 - i))"

definition transposition_rotation :: "nat \<Rightarrow> nat \<Rightarrow> symmetry" where
  "transposition_rotation H W = table H W (\<lambda>i j. (W - 1 - j, H - 1 - i))"

text \<open>
  A sequence \<open>x, f x, f (f x), \<dots>\<close> recurs at index \<open>t\<close> with period \<open>p\<close> when \<open>p\<close> is
  positive and the elements at \<open>t + p\<close> and at \<open>t\<close> are equal. The cycle length is the
  least such period and the transient length the least index with that period.
\<close>

definition recurs :: "('a \<Rightarrow> 'a) \<Rightarrow> 'a \<Rightarrow> nat \<Rightarrow> nat \<Rightarrow> bool" where
  "recurs f x t p \<longleftrightarrow> 0 < p \<and> (f ^^ (t + p)) x = (f ^^ t) x"

definition cycle_length :: "('a \<Rightarrow> 'a) \<Rightarrow> 'a \<Rightarrow> nat" where
  "cycle_length f x = (LEAST p. \<exists>t. recurs f x t p)"

definition transient_length :: "('a \<Rightarrow> 'a) \<Rightarrow> 'a \<Rightarrow> nat" where
  "transient_length f x = (LEAST t. recurs f x t (cycle_length f x))"

text \<open>A board is a grid state all of whose cells are integers.\<close>

definition board :: "life_pattern \<Rightarrow> bool" where
  "board p \<longleftrightarrow> grid p \<and> integer_cells (config p)"

text \<open>The loop \<open>for i in range(n): pattern = pattern.step()\<close>.\<close>

definition step_times :: "nat \<Rightarrow> life_pattern \<Rightarrow> error + life_pattern" where
  "step_times n p = for_each (\<lambda>i q. step q) [0..<n] p"

text \<open>
  The board the search builds from a subset of the cells, as a pattern, and the pattern
  on the cycle that the search records for a candidate.
\<close>

definition layout :: "nat \<Rightarrow> (nat \<times> nat) list \<Rightarrow> rectangle" where
  "layout N subs =
     map (\<lambda>i. map (\<lambda>j. if (i, j) \<in> set subs then Some 1 else Some 0) [0..<N]) [0..<3]"

definition candidate :: "nat \<Rightarrow> (nat \<times> nat) list \<Rightarrow> life_pattern" where
  "candidate N subs = \<lparr>config = layout N subs, height = 3, width = N\<rparr>"

definition landing :: "life_pattern \<Rightarrow> life_pattern" where
  "landing p = (next_pattern ^^ transient_length next_pattern p) p"

text \<open>The state of the matrix the search fills in, after \<open>k\<close> cells of the subset.\<close>

definition marked :: "nat \<Rightarrow> (nat \<times> nat) list \<Rightarrow> nat \<Rightarrow> rectangle \<Rightarrow> bool" where
  "marked N subs k cfg \<longleftrightarrow>
     length cfg = 3 \<and>
     (\<forall>i<3. length (cfg ! i) = N \<and>
        (\<forall>j<N. cfg ! i ! j = (if (i, j) \<in> set (take k subs) then Some 1 else Some 0)))"

text \<open>What the body of the search loop does to the state, on a candidate.\<close>

definition examined ::
  "int \<Rightarrow> (nat \<times> nat) list \<Rightarrow> life_pattern set \<times> life_pattern set \<Rightarrow>
   life_pattern set \<times> life_pattern set" where
  "examined n subs st =
     (let c = candidate (nat n) subs in
      if \<exists>t\<in>set (rectangle_symmetries 3 n True). remap_pattern c t \<in> fst st then st
      else if 1 < cycle_length next_pattern c
      then (insert (landing c) (insert c (fst st)), insert (landing c) (snd st))
      else (insert c (fst st), snd st))"

text \<open>
  A pattern lies on a cycle of period at least 2 when \<open>detect_cycle\<close> finds no transient
  and that many steps lead back to it.
\<close>

definition on_cycle :: "life_pattern \<Rightarrow> bool" where
  "on_cycle x \<longleftrightarrow> (\<exists>p\<ge>2. detect_cycle x = Some (Inr (0, p)) \<and> step_times p x = Inr x)"

text \<open>What holds of the two sets of the search throughout.\<close>

definition search_invariant :: "life_pattern set \<times> life_pattern set \<Rightarrow> bool" where
  "search_invariant st \<longleftrightarrow>
     (\<forall>y\<in>fst st. grid y) \<and> (\<forall>y\<in>snd st. grid y \<and> on_cycle y)"

text \<open>
  On a board of height 3 the three rows above, at and below a cell are all the rows, so
  the rule can be read column by column: \<open>col\<close> counts the live cells of a column,
  \<open>counts\<close> lists these numbers, \<open>totals\<close> adds to each number its two cyclic
  neighbours, and \<open>count_step\<close> is the rule on such lists (a column becomes full when it
  and its two neighbours hold 3 live cells, stays as it is when they hold 4, and becomes
  empty otherwise).
\<close>

definition col :: "life_pattern \<Rightarrow> nat \<Rightarrow> nat" where
  "col p j = (\<Sum>i\<leftarrow>[0, 1, 2]. if config p ! i ! j = Some 1 then 1 else 0)"

definition counts :: "life_pattern \<Rightarrow> nat list" where
  "counts p = map (col p) [0..<width p]"

fun sums3 :: "nat \<Rightarrow> nat list \<Rightarrow> nat \<Rightarrow> nat list" where
  "sums3 prev [] first = []"
| "sums3 prev [x] first = [prev + x + first]"
| "sums3 prev (x # y # rest) first = (prev + x + y) # sums3 x (y # rest) first"

definition totals :: "nat list \<Rightarrow> nat list" where
  "totals cs = (case cs of [] \<Rightarrow> [] | x # _ \<Rightarrow> sums3 (last cs) cs x)"

definition count_step :: "nat list \<Rightarrow> nat list" where
  "count_step cs =
     map (\<lambda>(T, c). if T = 3 then 3 else if T = 4 then c else 0) (zip (totals cs) cs)"

text \<open>The live cells in a column and its two neighbouring columns.\<close>

definition total :: "life_pattern \<Rightarrow> nat \<Rightarrow> nat" where
  "total p j = col p ((j + width p - 1) mod width p) + col p j + col p ((j + 1) mod width p)"

text \<open>
  A list of column counts settles within \<open>k\<close> steps when it reaches a fixed point of
  \<open>count_step\<close> by then; \<open>all_vectors\<close> runs through the lists of a given length with
  entries from 0 to 3.
\<close>

fun settles :: "nat \<Rightarrow> nat list \<Rightarrow> bool" where
  "settles 0 cs = (count_step cs = cs)"
| "settles (Suc k) cs = (count_step cs = cs \<or> settles k (count_step cs))"

fun all_vectors :: "(nat list \<Rightarrow> bool) \<Rightarrow> nat \<Rightarrow> nat list \<Rightarrow> bool" where
  "all_vectors P 0 acc = P acc"
| "all_vectors P (Suc n) acc =
     (all_vectors P n (0 # acc) \<and> all_vectors P n (1 # acc) \<and>
      all_vectors P n (2 # acc) \<and> all_vectors P n (3 # acc))"

text \<open>The state of a search that has found nothing.\<close>

definition no_oscillator :: "life_pattern set \<times> life_pattern set \<Rightarrow> bool" where
  "no_oscillator st \<longleftrightarrow> (\<forall>y\<in>fst st. grid y) \<and> snd st = {}"

text \<open>
  The horizontal flip, the vertical flip and the rotation by 180 degrees of a board,
  written on its rows.
\<close>

definition images :: "life_pattern \<Rightarrow> life_pattern list" where
  "images p =
     [p\<lparr>config := map rev (config p)\<rparr>, p\<lparr>config := rev (config p)\<rparr>,
      p\<lparr>config := map rev (rev (config p))\<rparr>]"

text \<open>
  The subsets in the order in which the search meets them, the search as a fold of
  \<open>examined\<close> over them, the patterns that lie on a cycle of period at least 2, and the
  binary boards of height 3 and a given width.
\<close>

definition all_subsets :: "int \<Rightarrow> (nat \<times> nat) list list" where
  "all_subsets n =
     (let pairs = List.product (py_range 3) (py_range n)
      in concat (map (combinations pairs) (py_range (int (length pairs) + 1))))"

definition run ::
  "int \<Rightarrow> (nat \<times> nat) list list \<Rightarrow> life_pattern set \<times> life_pattern set \<Rightarrow>
   life_pattern set \<times> life_pattern set" where
  "run n ss st = foldl (\<lambda>st s. examined n s st) st ss"

definition cyclic :: "life_pattern \<Rightarrow> bool" where
  "cyclic p \<longleftrightarrow> transient_length next_pattern p = 0 \<and> 1 < cycle_length next_pattern p"

definition board3 :: "nat \<Rightarrow> life_pattern \<Rightarrow> bool" where
  "board3 N p \<longleftrightarrow> grid p \<and> binary (config p) \<and> height p = 3 \<and> width p = N"

text \<open>
  The order of the enumeration, on boards: a board comes before another when it has
  fewer live cells or, with as many, has the live cell where the two first differ, the
  cells being read row by row. \<open>marks\<close> is the row-by-row reading of a subset and
  \<open>earlier\<close> the same order on subsets.
\<close>

fun precedes :: "cell list \<Rightarrow> cell list \<Rightarrow> bool" where
  "precedes (a # as) (b # bs) = (if a = b then precedes as bs else a = Some 1)"
| "precedes as bs = False"

definition live_cells :: "rectangle \<Rightarrow> nat" where
  "live_cells cfg = length (filter (\<lambda>v. v = Some 1) (concat cfg))"

definition before :: "rectangle \<Rightarrow> rectangle \<Rightarrow> bool" where
  "before a b \<longleftrightarrow>
     live_cells a < live_cells b \<or>
     (live_cells a = live_cells b \<and> precedes (concat a) (concat b))"

definition marks :: "(nat \<times> nat) list \<Rightarrow> (nat \<times> nat) list \<Rightarrow> cell list" where
  "marks xs s = map (\<lambda>x. if x \<in> set s then Some 1 else Some 0) xs"

definition earlier :: "(nat \<times> nat) list \<Rightarrow> (nat \<times> nat) list \<Rightarrow> (nat \<times> nat) list \<Rightarrow> bool" where
  "earlier xs a b \<longleftrightarrow>
     length a < length b \<or> (length a = length b \<and> precedes (marks xs a) (marks xs b))"

text \<open>
  The step of a board of height 3 computed from its column counts, the pattern with a
  given matrix, and a search for the first repetition of a trajectory that keeps the
  boards met so far (most recent first) and returns the transient length, the cycle
  length and the first board on the cycle.
\<close>

definition ind :: "cell \<Rightarrow> nat" where
  "ind v = (if v = Some 1 then 1 else 0)"

definition column_counts :: "rectangle \<Rightarrow> nat list" where
  "column_counts cfg =
     (case cfg of
        [r0, r1, r2] \<Rightarrow> map (\<lambda>(a, b, c). ind a + ind b + ind c) (zip r0 (zip r1 r2))
      | _ \<Rightarrow> [])"

definition next_row :: "nat list \<Rightarrow> cell list \<Rightarrow> cell list" where
  "next_row ts row =
     map (\<lambda>(T, v). if T = 3 \<or> (T = 4 \<and> v = Some 1) then Some 1 else Some 0) (zip ts row)"

definition fast_next :: "rectangle \<Rightarrow> rectangle" where
  "fast_next cfg = map (next_row (totals (column_counts cfg))) cfg"

definition pat :: "nat \<Rightarrow> rectangle \<Rightarrow> life_pattern" where
  "pat N cfg = \<lparr>config = cfg, height = 3, width = N\<rparr>"

fun find_cycle :: "nat \<Rightarrow> rectangle list \<Rightarrow> rectangle \<Rightarrow> (nat \<times> nat \<times> rectangle) option" where
  "find_cycle 0 hist x = None"
| "find_cycle (Suc k) hist x =
     (if x \<in> set hist then
        (let i = length (takeWhile (\<lambda>y. y \<noteq> x) hist)
         in Some (length hist - Suc i, Suc i, x))
      else find_cycle k (x # hist) (fast_next x))"

text \<open>
  The four boards of width 4 with two adjacent full columns (the columns being adjacent
  around the torus), a depth-first check of a predicate on all binary rows of a length
  and on all binary boards of three rows, the three flips of a board, and the two facts
  to be checked of the boards of width 4: of every board, what its cycle is and, when
  it leads to the board with the two columns on the right, that one of its flips comes
  earlier in the enumeration; of a board that is the first to lead to a cycle, its
  transient, period and landing point, and that no flip of it is met before it.
\<close>

definition osc_left :: rectangle where
  "osc_left = map (map Some) [[1, 1, 0, 0], [1, 1, 0, 0], [1, 1, 0, 0]]"

definition osc_middle :: rectangle where
  "osc_middle = map (map Some) [[0, 1, 1, 0], [0, 1, 1, 0], [0, 1, 1, 0]]"

definition osc_right :: rectangle where
  "osc_right = map (map Some) [[0, 0, 1, 1], [0, 0, 1, 1], [0, 0, 1, 1]]"

definition osc_ends :: rectangle where
  "osc_ends = map (map Some) [[1, 0, 0, 1], [1, 0, 0, 1], [1, 0, 0, 1]]"

fun all_rows :: "(cell list \<Rightarrow> bool) \<Rightarrow> nat \<Rightarrow> cell list \<Rightarrow> bool" where
  "all_rows P 0 acc = P acc"
| "all_rows P (Suc n) acc = (all_rows P n (Some 0 # acc) \<and> all_rows P n (Some 1 # acc))"

definition all_boards :: "nat \<Rightarrow> (rectangle \<Rightarrow> bool) \<Rightarrow> bool" where
  "all_boards N P =
     all_rows (\<lambda>r0. all_rows (\<lambda>r1. all_rows (\<lambda>r2. P [r0, r1, r2]) N []) N []) N []"

definition flips :: "rectangle \<Rightarrow> rectangle list" where
  "flips cfg = [map rev cfg, rev cfg, map rev (rev cfg)]"

definition search_check :: "rectangle \<Rightarrow> bool" where
  "search_check cfg =
     (if settles 6 (column_counts cfg) then True
      else
        (case find_cycle 8 [] cfg of
           None \<Rightarrow> False
         | Some (m, l, y) \<Rightarrow>
             (if m = 0 then cfg \<in> set [osc_left, osc_middle, osc_right, osc_ends] else True) \<and>
             (if y = osc_right \<and> cfg \<noteq> osc_right
              then list_ex (\<lambda>q. before q cfg) (flips cfg) else True)))"

definition source_check :: "rectangle \<Rightarrow> rectangle \<Rightarrow> bool" where
  "source_check cfg y =
     (find_cycle 8 [] cfg = Some (1, 2, y) \<and>
      list_all (\<lambda>q. \<not> before q cfg \<and> q \<notin> set [osc_left, osc_middle, osc_right, osc_ends])
        (flips cfg))"

text \<open>The first subset of the enumeration that leads to the board \<open>oo..\<close>.\<close>

definition source_left :: "(nat \<times> nat) list" where
  "source_left = [(0, 0), (0, 1), (1, 0)]"

section \<open>The constructor\<close>

lemma life_pattern_Nil: "life_pattern [] = Inl IndexError"
  by (simp add: life_pattern_def nth_py_def)

lemma life_pattern_Cons:
  "life_pattern (r # rs) = Inr \<lparr>config = r # rs, height = Suc (length rs), width = length r\<rparr>"
  by (simp add: life_pattern_def nth_py_def tuplefy_rectangle_def)

text \<open>
  C5, as stated, fails: a matrix with rows of different lengths and a matrix with a cell
  outside \<open>{0, 1}\<close> are both accepted by the constructor.
\<close>

theorem construct_counterexample:
  "\<not> rectangular [[Some 0, Some 1], [Some 1]] \<and>
   life_pattern [[Some 0, Some 1], [Some 1]] =
     Inr \<lparr>config = [[Some 0, Some 1], [Some 1]], height = 2, width = 2\<rparr> \<and>
   \<not> binary [[Some 2]] \<and>
   life_pattern [[Some 2]] = Inr \<lparr>config = [[Some 2]], height = 1, width = 1\<rparr>"
  by (simp add: rectangular_def binary_def life_pattern_Cons)

text \<open>
  C5, amended: the constructor checks nothing. It fails, with \<open>IndexError\<close>, exactly on
  the matrix without rows; on every other matrix it succeeds and stores the matrix as
  given, with the number of rows as height and the length of the first row as width.
\<close>

theorem construct_unchecked:
  "(cfg = [] \<longrightarrow> life_pattern cfg = Inl IndexError) \<and>
   (cfg \<noteq> [] \<longrightarrow>
      life_pattern cfg = Inr \<lparr>config = cfg, height = length cfg, width = length (hd cfg)\<rparr>)"
  by (cases cfg) (simp_all add: life_pattern_Nil life_pattern_Cons)

theorem construct_unchecked_witness:
  "life_pattern [[Some 0, Some 1], [Some 1]] =
     Inr \<lparr>config = [[Some 0, Some 1], [Some 1]], height = 2, width = 2\<rparr> \<and>
   life_pattern [] = Inl IndexError"
  using construct_unchecked [of "[[Some 0, Some 1], [Some 1]]"] construct_unchecked [of "[]"]
  by simp

section \<open>The glider\<close>

text \<open>
  C9: on the glider board given in the notebook, \<open>detect_cycle\<close> returns
  \<open>first_rep = 0\<close> and \<open>period = 20\<close>.
\<close>

theorem glider_cycle:
  "life_pattern glider = Inr \<lparr>config = glider, height = 5, width = 5\<rparr> \<and>
   detect_cycle \<lparr>config = glider, height = 5, width = 5\<rparr> = Some (Inr (0, 20))"
  by code_simp

section \<open>What \<open>step\<close> computes\<close>

lemma for_each_append:
  "for_each body (xs @ ys) st =
     (case for_each body xs st of Inl e \<Rightarrow> Inl e | Inr st' \<Rightarrow> for_each body ys st')"
  by (induction xs arbitrary: st) (auto split: sum.splits)

lemma for_each_upt_rule:
  assumes "P 0 st"
    and "\<And>k s. k < n \<Longrightarrow> P k s \<Longrightarrow> \<exists>s'. body k s = Inr s' \<and> P (Suc k) s'"
  shows "\<exists>st'. for_each body [0..<n] st = Inr st' \<and> P n st'"
  using assms(2)
proof (induction n)
  case 0
  then show ?case using assms(1) by simp
next
  case (Suc n)
  from Suc.IH Suc.prems obtain s1 where s1: "for_each body [0..<n] st = Inr s1" "P n s1"
    by (meson less_Suc_eq)
  from Suc.prems [of n s1] s1 obtain s2 where s2: "body n s1 = Inr s2" "P (Suc n) s2"
    by auto
  show ?case
    by (simp add: for_each_append s1 s2)
qed

lemma grid_row_length:
  "grid p \<Longrightarrow> i < height p \<Longrightarrow> length (config p ! i) = width p"
  by (simp add: grid_def)

lemma grid_height_pos: "grid p \<Longrightarrow> 0 < height p"
  by (auto simp: grid_def)

lemma integer_cellsD:
  "integer_cells cfg \<Longrightarrow> i < length cfg \<Longrightarrow> j < length (cfg ! i) \<Longrightarrow> \<exists>v. cfg ! i ! j = Some v"
  unfolding integer_cells_def
  by (metis nth_mem not_None_eq)

lemma add_neighbours:
  assumes "grid p" "integer_cells (config p)" "0 < width p"
  shows "for_each (add_neighbour p i j) ds s =
           Inr (s + (\<Sum>d\<leftarrow>ds. the (config p ! nat ((int i + fst d) mod int (height p))
                                          ! nat ((int j + snd d) mod int (width p)))))"
proof (induction ds arbitrary: s)
  case Nil
  show ?case by simp
next
  case (Cons d ds)
  let ?ii = "nat ((int i + fst d) mod int (height p))"
  let ?jj = "nat ((int j + snd d) mod int (width p))"
  have H: "0 < height p" using assms(1) by (rule grid_height_pos)
  have ii: "?ii < length (config p)"
    using H assms(1) by (simp add: grid_def nat_less_iff)
  then have "length (config p ! ?ii) = width p"
    using assms(1) by (simp add: grid_def)
  moreover have "?jj < width p"
    using assms(3) by (simp add: nat_less_iff)
  ultimately have jj: "?jj < length (config p ! ?ii)" by simp
  from integer_cellsD [OF assms(2) ii jj] obtain v where v: "config p ! ?ii ! ?jj = Some v" ..
  have "add_neighbour p i j d s = Inr (s + v)"
    using H assms(3) ii jj v
    by (simp add: add_neighbour_def py_mod_def nth_py_def py_add_def)
  then show ?case
    using v by (simp add: Cons.IH add.assoc)
qed

lemma neighbour_sum_grid:
  assumes "grid p" "integer_cells (config p)" "0 < width p"
  shows "for_each (add_neighbour p i j) directions 0 = Inr (neighbour_count p i j)"
  unfolding add_neighbours [OF assms]
  by (simp add: neighbour_count_def directions_def cell_at_def)

lemma filled_next_row: "filled p i (width p) nc \<Longrightarrow> filled p (Suc i) 0 nc"
  unfolding filled_def by (auto simp: less_Suc_eq)

lemma filled_assign:
  assumes "filled p i j nc" "i < height p" "j < width p" "alive_next p i j"
  shows "filled p i (Suc j) (nc[i := (nc ! i)[j := Some 1]])"
  using assms unfolding filled_def
  by (auto simp: nth_list_update less_Suc_eq)

lemma filled_keep:
  assumes "filled p i j nc" "i < height p" "j < width p" "\<not> alive_next p i j"
  shows "filled p i (Suc j) nc"
  using assms unfolding filled_def
  by (auto simp: less_Suc_eq)

lemma step_cell_filled:
  assumes g: "grid p" "integer_cells (config p)"
    and ij: "i < height p" "j < width p"
    and f: "filled p i j nc"
  shows "\<exists>nc'. step_cell p i j nc = Inr nc' \<and> filled p i (Suc j) nc'"
proof -
  have W: "0 < width p" using ij by simp
  have s: "for_each (add_neighbour p i j) directions 0 = Inr (neighbour_count p i j)"
    by (rule neighbour_sum_grid [OF g W])
  have len: "i < length nc" "j < length (nc ! i)"
    using f ij by (auto simp: filled_def)
  have rd: "i < length (config p)" "j < length (config p ! i)"
    using g(1) ij grid_row_length [OF g(1) ij(1)] by (simp_all add: grid_def)
  show ?thesis
  proof (cases "alive_next p i j")
    case True
    then have "step_cell p i j nc = Inr (nc[i := (nc ! i)[j := Some 1]])"
      using s len rd by (auto simp: step_cell_def assign2_def nth_py_def alive_next_def)
    then show ?thesis using filled_assign [OF f ij True] by simp
  next
    case False
    then have "step_cell p i j nc = Inr nc"
      using s len rd by (auto simp: step_cell_def assign2_def nth_py_def alive_next_def)
    then show ?thesis using filled_keep [OF f ij False] by simp
  qed
qed

lemma step_row_filled:
  assumes g: "grid p" "integer_cells (config p)"
    and i: "i < height p"
    and f: "filled p i 0 nc"
  shows "\<exists>nc'. for_each (step_cell p i) [0..<width p] nc = Inr nc' \<and> filled p (Suc i) 0 nc'"
proof -
  have "\<exists>nc'. for_each (step_cell p i) [0..<width p] nc = Inr nc' \<and> filled p i (width p) nc'"
    by (rule for_each_upt_rule [where P = "\<lambda>j. filled p i j"])
       (use f step_cell_filled [OF g i] in auto)
  then show ?thesis using filled_next_row by blast
qed

lemma filled_all:
  assumes "filled p (height p) 0 nc"
  shows "nc = next_config p"
  using assms unfolding filled_def next_config_def
  by (auto simp: list_eq_iff_nth_eq)

lemma step_grid:
  assumes g: "grid p" "integer_cells (config p)"
  shows "step p = Inr (next_pattern p)"
proof -
  let ?z = "replicate (height p) (replicate (width p) (Some 0))"
  have "filled p 0 0 ?z"
    by (simp add: filled_def)
  then have "\<exists>nc'. for_each (\<lambda>i. for_each (step_cell p i) [0..<width p]) [0..<height p] ?z = Inr nc'
                 \<and> filled p (height p) 0 nc'"
    by (rule for_each_upt_rule [where P = "\<lambda>i. filled p i 0"])
       (use step_row_filled [OF g] in auto)
  then have run: "for_each (\<lambda>i. for_each (step_cell p i) [0..<width p]) [0..<height p] ?z
                    = Inr (next_config p)"
    using filled_all by blast
  have H: "0 < height p" using g(1) by (rule grid_height_pos)
  then obtain r rs where nc: "next_config p = r # rs"
    by (cases "next_config p") (auto simp: next_config_def)
  have "length (next_config p) = height p" "length (next_config p ! 0) = width p"
    using H by (simp_all add: next_config_def)
  then have "length rs = height p - 1" "length r = width p"
    using nc by auto
  then have "life_pattern (next_config p) = Inr (next_pattern p)"
    using H by (simp add: nc life_pattern_Cons next_pattern_def)
  then show ?thesis
    by (simp add: step_def run)
qed

section \<open>What \<open>apply_symmetry\<close> computes\<close>

lemma for_each_nth_rule:
  assumes "P 0 st"
    and "\<And>k s. k < length xs \<Longrightarrow> P k s \<Longrightarrow> \<exists>s'. body (xs ! k) s = Inr s' \<and> P (Suc k) s'"
  shows "\<exists>st'. for_each body xs st = Inr st' \<and> P (length xs) st'"
  using assms(2)
proof (induction xs rule: rev_induct)
  case Nil
  then show ?case using assms(1) by simp
next
  case (snoc x xs)
  have step: "\<exists>s'. body (xs ! k) s = Inr s' \<and> P (Suc k) s'" if "k < length xs" "P k s" for k s
    using snoc.prems [of k s] that by (simp add: nth_append)
  from snoc.IH [OF step] obtain s1 where s1: "for_each body xs st = Inr s1" "P (length xs) s1"
    by blast
  from snoc.prems [of "length xs" s1] s1 obtain s2 where
    s2: "body x s1 = Inr s2" "P (Suc (length xs)) s2"
    by auto
  show ?case
    by (simp add: for_each_append s1 s2)
qed

lemma copied_next_row: "copied p t i (width p) nc \<Longrightarrow> copied p t (Suc i) 0 nc"
  unfolding copied_def by (auto simp: less_Suc_eq)

lemma copied_assign:
  assumes "copied p t i j nc" "i < height p" "j < width p"
    and "v = config p ! fst (t ! i ! j) ! snd (t ! i ! j)"
  shows "copied p t i (Suc j) (nc[i := (nc ! i)[j := v]])"
  using assms unfolding copied_def
  by (auto simp: nth_list_update less_Suc_eq)

lemma table_for_entry:
  assumes "table_for H W t" "i < H" "j < W"
  shows "fst (t ! i ! j) < H \<and> snd (t ! i ! j) < W"
proof -
  have "t ! i \<in> set t" using assms by (simp add: table_for_def)
  then have r: "length (t ! i) = W" "\<forall>kl\<in>set (t ! i). fst kl < H \<and> snd kl < W"
    using assms(1) by (auto simp: table_for_def)
  then have "t ! i ! j \<in> set (t ! i)" using assms(3) by simp
  with r show ?thesis by blast
qed

lemma table_for_row: "table_for H W t \<Longrightarrow> i < H \<Longrightarrow> length (t ! i) = W"
  by (simp add: table_for_def)

lemma apply_cell_copied:
  assumes g: "grid p" and t: "table_for (height p) (width p) t"
    and ij: "i < height p" "j < width p"
    and f: "copied p t i j nc"
  shows "\<exists>nc'. apply_cell p i (j, t ! i ! j) nc = Inr nc' \<and> copied p t i (Suc j) nc'"
proof -
  obtain k l where kl: "t ! i ! j = (k, l)" by (cases "t ! i ! j")
  from table_for_entry [OF t ij] kl have k: "k < height p" and l: "l < width p" by simp_all
  have rd: "k < length (config p)" "l < length (config p ! k)"
    using g k l grid_row_length [OF g k] by (simp_all add: grid_def)
  have len: "i < length nc" "j < length (nc ! i)"
    using f ij by (auto simp: copied_def)
  have "apply_cell p i (j, t ! i ! j) nc = Inr (nc[i := (nc ! i)[j := config p ! k ! l]])"
    using rd len by (simp add: apply_cell_def kl nth_py_def assign2_def)
  moreover have "copied p t i (Suc j) (nc[i := (nc ! i)[j := config p ! k ! l]])"
    by (rule copied_assign [OF f ij]) (simp add: kl)
  ultimately show ?thesis by simp
qed

lemma apply_row_copied:
  assumes g: "grid p" and t: "table_for (height p) (width p) t"
    and i: "i < height p"
    and f: "copied p t i 0 nc"
  shows "\<exists>nc'. for_each (apply_cell p i) (enumerate 0 (t ! i)) nc = Inr nc'
               \<and> copied p t (Suc i) 0 nc'"
proof -
  have len: "length (enumerate 0 (t ! i)) = width p"
    using table_for_row [OF t i] by simp
  have "\<exists>nc'. for_each (apply_cell p i) (enumerate 0 (t ! i)) nc = Inr nc'
               \<and> copied p t i (length (enumerate 0 (t ! i))) nc'"
  proof (rule for_each_nth_rule [where P = "\<lambda>j. copied p t i j"])
    show "copied p t i 0 nc" by (rule f)
  next
    fix k s
    assume k: "k < length (enumerate 0 (t ! i))" and s: "copied p t i k s"
    have kw: "k < width p" using k len by simp
    have "enumerate 0 (t ! i) ! k = (k, t ! i ! k)"
      using kw table_for_row [OF t i] by (simp add: nth_enumerate_eq)
    then show "\<exists>s'. apply_cell p i (enumerate 0 (t ! i) ! k) s = Inr s' \<and> copied p t i (Suc k) s'"
      using apply_cell_copied [OF g t i kw s] by simp
  qed
  then show ?thesis
    using copied_next_row [of p t i] by (auto simp: table_for_row [OF t i])
qed

lemma copied_all:
  assumes "copied p t (height p) 0 nc" "table_for (height p) (width p) t"
  shows "nc = remap (config p) t"
proof (rule nth_equalityI)
  show "length nc = length (remap (config p) t)"
    using assms by (simp add: copied_def remap_def table_for_def)
next
  fix i
  assume "i < length nc"
  then have i: "i < height p" using assms(1) by (simp add: copied_def)
  have it: "i < length t" using i assms(2) by (simp add: table_for_def)
  have lt: "length (t ! i) = width p" by (rule table_for_row [OF assms(2) i])
  show "nc ! i = remap (config p) t ! i"
  proof (rule nth_equalityI)
    show "length (nc ! i) = length (remap (config p) t ! i)"
      using assms(1) i it lt by (simp add: copied_def remap_def)
  next
    fix j
    assume "j < length (nc ! i)"
    then have j: "j < width p" using assms(1) i by (simp add: copied_def)
    then show "nc ! i ! j = remap (config p) t ! i ! j"
      using assms(1) i it lt by (simp add: copied_def remap_def)
  qed
qed

lemma copied_start:
  assumes "grid p"
  shows "copied p t 0 0 (map (\<lambda>row. replicate (length row) None) (config p))"
  using assms grid_row_length [OF assms]
  by (simp add: copied_def grid_def)

lemma life_pattern_grid:
  assumes "length cfg = H" "0 < H" "length (cfg ! 0) = W"
  shows "life_pattern cfg = Inr \<lparr>config = cfg, height = H, width = W\<rparr>"
  using assms by (cases cfg) (auto simp: life_pattern_Cons)

lemma apply_symmetry_grid:
  assumes g: "grid p" and t: "table_for (height p) (width p) t"
  shows "apply_symmetry p t = Inr (remap_pattern p t)"
proof -
  let ?z = "map (\<lambda>row. replicate (length row) None) (config p)"
  let ?body = "\<lambda>(i, row). for_each (apply_cell p i) (enumerate 0 row)"
  have len: "length (enumerate 0 t) = height p"
    using t by (simp add: table_for_def)
  have "\<exists>nc'. for_each ?body (enumerate 0 t) ?z = Inr nc' \<and> copied p t (length (enumerate 0 t)) 0 nc'"
  proof (rule for_each_nth_rule [where P = "\<lambda>i. copied p t i 0"])
    show "copied p t 0 0 ?z" by (rule copied_start [OF g])
  next
    fix k s
    assume k: "k < length (enumerate 0 t)" and s: "copied p t k 0 s"
    have kh: "k < height p" using k len by simp
    have "enumerate 0 t ! k = (k, t ! k)"
      using kh t by (simp add: nth_enumerate_eq table_for_def)
    then show "\<exists>s'. ?body (enumerate 0 t ! k) s = Inr s' \<and> copied p t (Suc k) 0 s'"
      using apply_row_copied [OF g t kh s] by simp
  qed
  then have run: "for_each ?body (enumerate 0 t) ?z = Inr (remap (config p) t)"
    using copied_all [OF _ t] t by (auto simp: table_for_def)
  have H: "0 < height p" using g by (rule grid_height_pos)
  have "length (remap (config p) t) = height p"
    using t by (simp add: remap_def table_for_def)
  moreover have "length (remap (config p) t ! 0) = width p"
    using t H table_for_row [OF t H] by (simp add: remap_def table_for_def)
  ultimately have "life_pattern (remap (config p) t) = Inr (remap_pattern p t)"
    using H by (simp add: life_pattern_grid remap_pattern_def)
  then show ?thesis
    by (simp add: apply_symmetry_def run)
qed

section \<open>The tables of the symmetry generator\<close>

lemma rev_upt_0: "rev [0..<n] = map (\<lambda>j. n - 1 - j) [0..<n]"
  by (rule nth_equalityI) (simp_all add: rev_nth)

lemma rev_table_rows: "map rev (table H W f) = table H W (\<lambda>i j. f i (W - 1 - j))"
  by (simp add: table_def rev_map rev_upt_0 comp_def)

lemma rev_table: "rev (table H W f) = table H W (\<lambda>i j. f (H - 1 - i) j)"
  by (simp add: table_def rev_map rev_upt_0 comp_def)

lemma rectangle_symmetries_tables:
  "rectangle_symmetries m n True =
     [horizontal_flip (nat m) (nat n), vertical_flip (nat m) (nat n), rotation_180 (nat m) (nat n)] @
     (if m \<noteq> n then []
      else [transposition (nat m) (nat n), transposition_hflip (nat m) (nat n),
            transposition_vflip (nat m) (nat n), transposition_rotation (nat m) (nat n)])"
proof -
  have a: "map (\<lambda>i. map (\<lambda>j. (i, j)) [0..<nat n]) [0..<nat m] = table (nat m) (nat n) (\<lambda>i j. (i, j))"
    by (simp add: table_def)
  have b: "map (\<lambda>i. map (\<lambda>j. (j, i)) [0..<nat n]) [0..<nat m] = table (nat m) (nat n) (\<lambda>i j. (j, i))"
    by (simp add: table_def)
  show ?thesis
    unfolding rectangle_symmetries_def py_range_def Let_def a b rev_table rev_table_rows
      horizontal_flip_def vertical_flip_def rotation_180_def transposition_def
      transposition_hflip_def transposition_vflip_def transposition_rotation_def
    by simp
qed

text \<open>
  C6: with the identity skipped, the generator yields three tables when the height and
  the width differ and seven when they are equal, in this order: horizontal flip,
  vertical flip, rotation by 180 degrees, and then, on a square, the transposition and
  the transposition followed by each of the first three.
\<close>

theorem symmetries_in_order:
  "(m \<noteq> n \<longrightarrow>
      rectangle_symmetries m n True =
        [horizontal_flip (nat m) (nat n), vertical_flip (nat m) (nat n),
         rotation_180 (nat m) (nat n)]) \<and>
   (m = n \<longrightarrow>
      rectangle_symmetries m n True =
        [horizontal_flip (nat m) (nat n), vertical_flip (nat m) (nat n),
         rotation_180 (nat m) (nat n),
         transposition (nat m) (nat n), transposition_hflip (nat m) (nat n),
         transposition_vflip (nat m) (nat n), transposition_rotation (nat m) (nat n)])"
  by (simp add: rectangle_symmetries_tables)

theorem symmetries_in_order_witness:
  "rectangle_symmetries 2 3 True =
     [[[(0, 2), (0, 1), (0, 0)], [(1, 2), (1, 1), (1, 0)]],
      [[(1, 0), (1, 1), (1, 2)], [(0, 0), (0, 1), (0, 2)]],
      [[(1, 2), (1, 1), (1, 0)], [(0, 2), (0, 1), (0, 0)]]] \<and>
   rectangle_symmetries 2 2 True =
     [[[(0, 1), (0, 0)], [(1, 1), (1, 0)]],
      [[(1, 0), (1, 1)], [(0, 0), (0, 1)]],
      [[(1, 1), (1, 0)], [(0, 1), (0, 0)]],
      [[(0, 0), (1, 0)], [(0, 1), (1, 1)]],
      [[(1, 0), (0, 0)], [(1, 1), (0, 1)]],
      [[(0, 1), (1, 1)], [(0, 0), (1, 0)]],
      [[(1, 1), (0, 1)], [(1, 0), (0, 0)]]]"
proof -
  have e: "[0..<2] = [0, 1]" "[0..<3] = [0, 1, 2]"
    by (simp_all add: upt_rec)
  show ?thesis
    using symmetries_in_order [of 2 3] symmetries_in_order [of 2 2]
    by (simp add: horizontal_flip_def vertical_flip_def rotation_180_def transposition_def
        transposition_hflip_def transposition_vflip_def transposition_rotation_def table_def e)
qed

section \<open>The update rule\<close>

lemma grid_next_pattern: "grid p \<Longrightarrow> grid (next_pattern p)"
  by (auto simp: grid_def next_pattern_def next_config_def)

lemma integer_cells_next: "integer_cells (config (next_pattern p))"
  by (auto simp: integer_cells_def next_pattern_def next_config_def)

lemma binary_next: "binary (config (next_pattern p))"
  by (auto simp: binary_def next_pattern_def next_config_def)

lemma next_config_nth:
  "i < height p \<Longrightarrow> j < width p \<Longrightarrow>
   next_config p ! i ! j = (if alive_next p i j then Some 1 else Some 0)"
  by (simp add: next_config_def)

text \<open>
  C1: on a grid state of height \<open>H\<close> and width \<open>W\<close> with integer cells, \<open>step\<close> returns a
  grid state of the same height and width, in which cell \<open>(i, j)\<close> is 1 if the sum of
  the eight toroidal neighbours is 3, or is 2 with cell \<open>(i, j)\<close> being 1, and is 0
  otherwise. The eight neighbours are the cells at the offsets \<open>(1, 0)\<close>, \<open>(1, 1)\<close>,
  \<open>(0, 1)\<close>, \<open>(-1, 1)\<close>, \<open>(-1, 0)\<close>, \<open>(-1, -1)\<close>, \<open>(0, -1)\<close> and \<open>(1, -1)\<close>, the row taken
  modulo \<open>H\<close> and the column modulo \<open>W\<close>.
\<close>

theorem step_rule:
  assumes "grid s" and "integer_cells (config s)"
  shows "\<exists>s'. step s = Inr s' \<and> grid s' \<and> height s' = height s \<and> width s' = width s \<and>
           (\<forall>i<height s. \<forall>j<width s.
              config s' ! i ! j =
                (let n = cell_at s (int i + 1) (int j) + cell_at s (int i + 1) (int j + 1) +
                         cell_at s (int i) (int j + 1) + cell_at s (int i - 1) (int j + 1) +
                         cell_at s (int i - 1) (int j) + cell_at s (int i - 1) (int j - 1) +
                         cell_at s (int i) (int j - 1) + cell_at s (int i + 1) (int j - 1)
                 in if n = 3 \<or> (n = 2 \<and> config s ! i ! j = Some 1)
                    then Some 1 else Some 0))"
proof -
  have "step s = Inr (next_pattern s)"
    using assms by (rule step_grid)
  moreover have "grid (next_pattern s)"
    using assms(1) by (rule grid_next_pattern)
  moreover have "config (next_pattern s) ! i ! j =
      (if neighbour_count s i j = 3 \<or> (neighbour_count s i j = 2 \<and> config s ! i ! j = Some 1)
       then Some 1 else Some 0)" if "i < height s" "j < width s" for i j
    using that by (simp add: next_pattern_def next_config_nth alive_next_def)
  ultimately show ?thesis
    unfolding Let_def neighbour_count_def [symmetric]
    by (simp add: next_pattern_def)
qed

theorem step_rule_witness:
  "grid \<lparr>config = [[Some 0, Some 1, Some 1], [Some 0, Some 1, Some 0]], height = 2, width = 3\<rparr> \<and>
   integer_cells [[Some 0, Some 1, Some 1], [Some 0, Some 1, Some 0]] \<and>
   (\<exists>s'. step \<lparr>config = [[Some 0, Some 1, Some 1], [Some 0, Some 1, Some 0]],
                 height = 2, width = 3\<rparr> = Inr s' \<and>
         height s' = 2 \<and> width s' = 3 \<and>
         config s' ! 0 ! 0 = Some 0 \<and> config s' ! 0 ! 2 = Some 1)"
proof -
  let ?s = "\<lparr>config = [[Some 0, Some 1, Some 1], [Some 0, Some 1, Some 0]], height = 2, width = 3\<rparr>"
  have g: "grid ?s" by (simp add: grid_def)
  have c: "integer_cells (config ?s)" by (simp add: integer_cells_def)
  from step_rule [OF g c] obtain s' where s': "step ?s = Inr s'" "height s' = 2" "width s' = 3"
    and r: "\<And>i j. i < 2 \<Longrightarrow> j < 3 \<Longrightarrow> config s' ! i ! j =
      (let n = cell_at ?s (int i + 1) (int j) + cell_at ?s (int i + 1) (int j + 1) +
               cell_at ?s (int i) (int j + 1) + cell_at ?s (int i - 1) (int j + 1) +
               cell_at ?s (int i - 1) (int j) + cell_at ?s (int i - 1) (int j - 1) +
               cell_at ?s (int i) (int j - 1) + cell_at ?s (int i + 1) (int j - 1)
       in if n = 3 \<or> (n = 2 \<and> config ?s ! i ! j = Some 1) then Some 1 else Some 0)"
    by auto
  have "config s' ! 0 ! 0 = Some 0" "config s' ! 0 ! 2 = Some 1"
    using r [of 0 0] r [of 0 2] by (simp_all add: cell_at_def Let_def)
  with s' show ?thesis using g c by auto
qed

section \<open>Symmetric images\<close>

lemma table_for_table:
  assumes "\<And>i j. i < H \<Longrightarrow> j < W \<Longrightarrow> fst (f i j) < H \<and> snd (f i j) < W"
  shows "table_for H W (table H W f)"
  using assms by (auto simp: table_for_def table_def)

lemma remap_table_nth:
  "i < H \<Longrightarrow> j < W \<Longrightarrow> remap cfg (table H W f) ! i ! j = cfg ! fst (f i j) ! snd (f i j)"
  by (simp add: remap_def table_def)

lemma length_remap_table: "length (remap cfg (table H W f)) = H"
  by (simp add: remap_def table_def)

lemma length_remap_table_row: "i < H \<Longrightarrow> length (remap cfg (table H W f) ! i) = W"
  by (simp add: remap_def table_def)

lemma grid_remap_table:
  "grid p \<Longrightarrow> grid (remap_pattern p (table (height p) (width p) f))"
  by (auto simp: grid_def remap_pattern_def remap_def table_def)

lemma grid_eqI:
  assumes "grid p" "grid q" "height p = height q" "width p = width q"
    and "\<And>i j. i < height p \<Longrightarrow> j < width p \<Longrightarrow> config p ! i ! j = config q ! i ! j"
  shows "p = q"
proof -
  have "config p = config q"
  proof (rule nth_equalityI)
    show "length (config p) = length (config q)"
      using assms(1-3) by (simp add: grid_def)
  next
    fix i
    assume "i < length (config p)"
    then have i: "i < height p" using assms(1) by (simp add: grid_def)
    then have iq: "i < height q" using assms(3) by simp
    show "config p ! i = config q ! i"
    proof (rule nth_equalityI)
      show "length (config p ! i) = length (config q ! i)"
        using grid_row_length [OF assms(1) i] grid_row_length [OF assms(2) iq] assms(4) by simp
    next
      fix j
      assume "j < length (config p ! i)"
      then have "j < width p" using grid_row_length [OF assms(1) i] by simp
      then show "config p ! i ! j = config q ! i ! j" using assms(5) i by simp
    qed
  qed
  then show ?thesis
    using assms(3,4) by simp
qed

lemma remap_involution:
  assumes g: "grid p"
    and r: "\<And>i j. i < height p \<Longrightarrow> j < width p \<Longrightarrow> fst (f i j) < height p \<and> snd (f i j) < width p"
    and inv: "\<And>i j. i < height p \<Longrightarrow> j < width p \<Longrightarrow> f (fst (f i j)) (snd (f i j)) = (i, j)"
  shows "remap_pattern (remap_pattern p (table (height p) (width p) f)) (table (height p) (width p) f) = p"
proof (rule grid_eqI)
  let ?t = "table (height p) (width p) f"
  have g1: "grid (remap_pattern p ?t)" by (rule grid_remap_table [OF g])
  have hw: "height (remap_pattern p ?t) = height p" "width (remap_pattern p ?t) = width p"
    by (simp_all add: remap_pattern_def)
  show "grid (remap_pattern (remap_pattern p ?t) ?t)"
    using grid_remap_table [OF g1, of f] by (simp add: hw)
  show "grid p" by (rule g)
  show "height (remap_pattern (remap_pattern p ?t) ?t) = height p"
    by (simp add: remap_pattern_def)
  show "width (remap_pattern (remap_pattern p ?t) ?t) = width p"
    by (simp add: remap_pattern_def)
  fix i j
  assume "i < height (remap_pattern (remap_pattern p ?t) ?t)" "j < width (remap_pattern (remap_pattern p ?t) ?t)"
  then have ij: "i < height p" "j < width p" by (simp_all add: remap_pattern_def)
  from r [OF ij] have kl: "fst (f i j) < height p" "snd (f i j) < width p" by simp_all
  show "config (remap_pattern (remap_pattern p ?t) ?t) ! i ! j = config p ! i ! j"
    using ij kl inv [OF ij] by (simp add: remap_pattern_def remap_table_nth)
qed

lemma apply_symmetry_table:
  assumes g: "grid p"
    and r: "\<And>i j. i < height p \<Longrightarrow> j < width p \<Longrightarrow> fst (f i j) < height p \<and> snd (f i j) < width p"
  shows "apply_symmetry p (table (height p) (width p) f) =
           Inr (remap_pattern p (table (height p) (width p) f))"
  by (rule apply_symmetry_grid [OF g table_for_table]) (rule r)

lemma apply_symmetry_involution:
  assumes g: "grid p"
    and r: "\<And>i j. i < height p \<Longrightarrow> j < width p \<Longrightarrow> fst (f i j) < height p \<and> snd (f i j) < width p"
    and inv: "\<And>i j. i < height p \<Longrightarrow> j < width p \<Longrightarrow> f (fst (f i j)) (snd (f i j)) = (i, j)"
  shows "\<exists>q. apply_symmetry p (table (height p) (width p) f) = Inr q \<and>
             apply_symmetry q (table (height p) (width p) f) = Inr p"
proof -
  let ?t = "table (height p) (width p) f"
  let ?q = "remap_pattern p ?t"
  have 1: "apply_symmetry p ?t = Inr ?q" by (rule apply_symmetry_table [OF g r])
  have gq: "grid ?q" by (rule grid_remap_table [OF g])
  have hw: "height ?q = height p" "width ?q = width p" by (simp_all add: remap_pattern_def)
  have "apply_symmetry ?q (table (height ?q) (width ?q) f) = Inr (remap_pattern ?q (table (height ?q) (width ?q) f))"
    by (rule apply_symmetry_table [OF gq]) (simp add: hw r)
  then have "apply_symmetry ?q ?t = Inr p"
    using remap_involution [OF g r inv] by (simp add: hw)
  with 1 show ?thesis by blast
qed

text \<open>
  C10: on a board whose height and width differ, each of the three tables the generator
  yields is its own inverse: applying it twice to a grid state gives the grid state back.
\<close>

theorem flips_are_involutions:
  assumes "grid s" and "height s \<noteq> width s"
    and "t \<in> set (rectangle_symmetries (int (height s)) (int (width s)) True)"
  shows "\<exists>s1. apply_symmetry s t = Inr s1 \<and> apply_symmetry s1 t = Inr s"
proof -
  from assms(2,3) consider
      "t = horizontal_flip (height s) (width s)"
    | "t = vertical_flip (height s) (width s)"
    | "t = rotation_180 (height s) (width s)"
    by (auto simp: rectangle_symmetries_tables)
  then show ?thesis
  proof cases
    case 1
    show ?thesis unfolding 1 horizontal_flip_def
      by (rule apply_symmetry_involution [OF assms(1)]) auto
  next
    case 2
    show ?thesis unfolding 2 vertical_flip_def
      by (rule apply_symmetry_involution [OF assms(1)]) auto
  next
    case 3
    show ?thesis unfolding 3 rotation_180_def
      by (rule apply_symmetry_involution [OF assms(1)]) auto
  qed
qed

theorem flips_are_involutions_witness:
  "grid \<lparr>config = [[Some 0, Some 1, Some 1], [Some 0, Some 1, Some 0]], height = 2, width = 3\<rparr> \<and>
   (\<exists>s1. apply_symmetry
            \<lparr>config = [[Some 0, Some 1, Some 1], [Some 0, Some 1, Some 0]], height = 2, width = 3\<rparr>
            [[(0, 2), (0, 1), (0, 0)], [(1, 2), (1, 1), (1, 0)]] = Inr s1 \<and>
         apply_symmetry s1 [[(0, 2), (0, 1), (0, 0)], [(1, 2), (1, 1), (1, 0)]] =
           Inr \<lparr>config = [[Some 0, Some 1, Some 1], [Some 0, Some 1, Some 0]],
                height = 2, width = 3\<rparr>)"
proof -
  let ?s = "\<lparr>config = [[Some 0, Some 1, Some 1], [Some 0, Some 1, Some 0]], height = 2, width = 3\<rparr>"
  let ?t = "[[(0, 2), (0, 1), (0, 0)], [(1, 2), (1, 1), (1, 0)]] :: symmetry"
  have g: "grid ?s" by (simp add: grid_def)
  have d: "height ?s \<noteq> width ?s" by simp
  have e: "[0..<2] = [0, 1]" "[0..<3] = [0, 1, 2]"
    by (simp_all add: upt_rec)
  have "horizontal_flip 2 3 = ?t"
    by (simp add: horizontal_flip_def table_def e)
  then have t: "?t \<in> set (rectangle_symmetries (int (height ?s)) (int (width ?s)) True)"
    by (simp add: rectangle_symmetries_tables)
  from flips_are_involutions [OF g d t] g show ?thesis by simp
qed

section \<open>The update rule commutes with the symmetries\<close>

lemma neighbour_count_cell_at:
  "neighbour_count p i j =
     cell_at p (int i + 1) (int j) + cell_at p (int i + 1) (int j + 1) +
     cell_at p (int i) (int j + 1) + cell_at p (int i - 1) (int j + 1) +
     cell_at p (int i - 1) (int j) + cell_at p (int i - 1) (int j - 1) +
     cell_at p (int i) (int j - 1) + cell_at p (int i + 1) (int j - 1)"
  by (simp add: neighbour_count_def)

lemma flip_mod:
  fixes x n :: int
  assumes "0 < n"
  shows "(n - 1 - x) mod n = n - 1 - x mod n"
proof -
  have b: "0 \<le> x mod n" "x mod n < n"
    using assms by simp_all
  have "(n - 1 - x) mod n = (n - 1 - x mod n) mod n"
    by (metis mod_diff_right_eq)
  also have "\<dots> = n - 1 - x mod n"
    by (rule mod_pos_pos_trivial) (use b in simp_all)
  finally show ?thesis .
qed

lemma nat_flip_mod:
  fixes x :: int
  assumes "0 < n"
  shows "n - Suc (nat (x mod int n)) = nat ((int n - 1 - x) mod int n)"
proof -
  have b: "0 \<le> x mod int n" "x mod int n < int n"
    using assms by simp_all
  then have "nat (x mod int n) < n" by (simp add: nat_less_iff)
  then have "int (n - Suc (nat (x mod int n))) = int n - 1 - x mod int n"
    using b by simp
  also have "\<dots> = (int n - 1 - x) mod int n"
    using flip_mod [of "int n" x] assms by simp
  finally show ?thesis by (metis nat_int)
qed

lemma cell_at_remap:
  assumes H: "0 < height p" and W: "0 < width p"
    and f: "fst (f (nat (a mod int (height p))) (nat (b mod int (width p)))) = nat (a' mod int (height p))"
           "snd (f (nat (a mod int (height p))) (nat (b mod int (width p)))) = nat (b' mod int (width p))"
  shows "cell_at (remap_pattern p (table (height p) (width p) f)) a b = cell_at p a' b'"
proof -
  have "nat (a mod int (height p)) < height p" "nat (b mod int (width p)) < width p"
    using H W by (simp_all add: nat_less_iff)
  then show ?thesis
    by (simp add: cell_at_def remap_pattern_def remap_table_nth f)
qed

lemma cell_at_hflip:
  assumes "0 < height p" "0 < width p"
  shows "cell_at (remap_pattern p (table (height p) (width p) (\<lambda>i j. (i, width p - 1 - j)))) a b
           = cell_at p a (int (width p) - 1 - b)"
  by (rule cell_at_remap [OF assms]) (simp_all add: nat_flip_mod assms)

lemma next_remap:
  assumes g: "grid p"
    and r: "\<And>i j. i < height p \<Longrightarrow> j < width p \<Longrightarrow> fst (f i j) < height p \<and> snd (f i j) < width p"
    and nc: "\<And>i j. i < height p \<Longrightarrow> j < width p \<Longrightarrow>
               neighbour_count (remap_pattern p (table (height p) (width p) f)) i j =
               neighbour_count p (fst (f i j)) (snd (f i j))"
  shows "next_pattern (remap_pattern p (table (height p) (width p) f)) =
         remap_pattern (next_pattern p) (table (height p) (width p) f)"
proof (rule grid_eqI)
  let ?t = "table (height p) (width p) f"
  let ?q = "remap_pattern p ?t"
  have hq: "height ?q = height p" "width ?q = width p" by (simp_all add: remap_pattern_def)
  have hn: "height (next_pattern p) = height p" "width (next_pattern p) = width p"
    by (simp_all add: next_pattern_def)
  show "grid (next_pattern ?q)"
    by (rule grid_next_pattern [OF grid_remap_table [OF g]])
  show "grid (remap_pattern (next_pattern p) ?t)"
    using grid_remap_table [OF grid_next_pattern [OF g], of f] by (simp add: hn)
  show "height (next_pattern ?q) = height (remap_pattern (next_pattern p) ?t)"
    by (simp add: next_pattern_def remap_pattern_def)
  show "width (next_pattern ?q) = width (remap_pattern (next_pattern p) ?t)"
    by (simp add: next_pattern_def remap_pattern_def)
  fix i j
  assume "i < height (next_pattern ?q)" "j < width (next_pattern ?q)"
  then have ij: "i < height p" "j < width p"
    by (simp_all add: next_pattern_def remap_pattern_def)
  from r [OF ij] have kl: "fst (f i j) < height p" "snd (f i j) < width p" by simp_all
  have c: "config ?q ! i ! j = config p ! fst (f i j) ! snd (f i j)"
    using ij by (simp add: remap_pattern_def remap_table_nth)
  have "alive_next ?q i j = alive_next p (fst (f i j)) (snd (f i j))"
    by (simp add: alive_next_def nc [OF ij] c)
  then have "config (next_pattern ?q) ! i ! j =
      (if alive_next p (fst (f i j)) (snd (f i j)) then Some 1 else Some 0)"
    using ij by (simp add: next_pattern_def next_config_nth hq)
  moreover have "config (remap_pattern (next_pattern p) ?t) ! i ! j =
      (if alive_next p (fst (f i j)) (snd (f i j)) then Some 1 else Some 0)"
    using ij kl by (simp add: remap_pattern_def remap_table_nth next_pattern_def next_config_nth)
  ultimately show "config (next_pattern ?q) ! i ! j = config (remap_pattern (next_pattern p) ?t) ! i ! j"
    by simp
qed

lemma neighbour_count_hflip:
  assumes "i < height p" "j < width p"
  shows "neighbour_count (remap_pattern p (table (height p) (width p) (\<lambda>i j. (i, width p - 1 - j)))) i j
           = neighbour_count p i (width p - 1 - j)"
proof -
  have H: "0 < height p" and W: "0 < width p" using assms by simp_all
  have e: "int (width p - 1 - j) = int (width p) - 1 - int j"
    using assms by (simp add: of_nat_diff)
  show ?thesis
    unfolding neighbour_count_cell_at cell_at_hflip [OF H W] e
    by (simp add: algebra_simps)
qed

lemma cell_at_vflip:
  assumes "0 < height p" "0 < width p"
  shows "cell_at (remap_pattern p (table (height p) (width p) (\<lambda>i j. (height p - 1 - i, j)))) a b
           = cell_at p (int (height p) - 1 - a) b"
  by (rule cell_at_remap [OF assms(1,2)]) (simp_all add: nat_flip_mod assms)

lemma cell_at_rotation:
  assumes "0 < height p" "0 < width p"
  shows "cell_at (remap_pattern p (table (height p) (width p) (\<lambda>i j. (height p - 1 - i, width p - 1 - j)))) a b
           = cell_at p (int (height p) - 1 - a) (int (width p) - 1 - b)"
  by (rule cell_at_remap [OF assms(1,2)]) (simp_all add: nat_flip_mod assms)

lemma cell_at_identity:
  assumes "0 < height p" "0 < width p"
  shows "cell_at (remap_pattern p (table (height p) (width p) (\<lambda>i j. (i, j)))) a b
           = cell_at p a b"
  by (rule cell_at_remap [OF assms(1,2)]) (simp_all add: nat_flip_mod assms)

lemma cell_at_transposition:
  assumes "0 < height p" "0 < width p" "height p = width p"
  shows "cell_at (remap_pattern p (table (height p) (width p) (\<lambda>i j. (j, i)))) a b
           = cell_at p b a"
  by (rule cell_at_remap [OF assms(1,2)]) (simp_all add: nat_flip_mod assms)

lemma cell_at_transposition_hflip:
  assumes "0 < height p" "0 < width p" "height p = width p"
  shows "cell_at (remap_pattern p (table (height p) (width p) (\<lambda>i j. (width p - 1 - j, i)))) a b
           = cell_at p (int (height p) - 1 - b) a"
  by (rule cell_at_remap [OF assms(1,2)]) (simp_all add: nat_flip_mod assms)

lemma cell_at_transposition_vflip:
  assumes "0 < height p" "0 < width p" "height p = width p"
  shows "cell_at (remap_pattern p (table (height p) (width p) (\<lambda>i j. (j, height p - 1 - i)))) a b
           = cell_at p b (int (width p) - 1 - a)"
  by (rule cell_at_remap [OF assms(1,2)]) (simp_all add: nat_flip_mod assms)

lemma cell_at_transposition_rotation:
  assumes "0 < height p" "0 < width p" "height p = width p"
  shows "cell_at (remap_pattern p (table (height p) (width p) (\<lambda>i j. (width p - 1 - j, height p - 1 - i)))) a b
           = cell_at p (int (height p) - 1 - b) (int (width p) - 1 - a)"
  by (rule cell_at_remap [OF assms(1,2)]) (simp_all add: nat_flip_mod assms)

lemma neighbour_count_vflip:
  assumes "i < height p" "j < width p"
  shows "neighbour_count (remap_pattern p (table (height p) (width p) (\<lambda>i j. (height p - 1 - i, j)))) i j
           = neighbour_count p (height p - 1 - i) j"
proof -
  have H: "0 < height p" and W: "0 < width p" using assms by simp_all
  have e0: "int (height p - 1 - i) = int (height p) - 1 - int i"
    using assms by (simp add: of_nat_diff)
  show ?thesis
    unfolding neighbour_count_cell_at cell_at_vflip [OF H W] e0
    by (simp add: algebra_simps)
qed

lemma neighbour_count_rotation:
  assumes "i < height p" "j < width p"
  shows "neighbour_count (remap_pattern p (table (height p) (width p) (\<lambda>i j. (height p - 1 - i, width p - 1 - j)))) i j
           = neighbour_count p (height p - 1 - i) (width p - 1 - j)"
proof -
  have H: "0 < height p" and W: "0 < width p" using assms by simp_all
  have e0: "int (height p - 1 - i) = int (height p) - 1 - int i"
    using assms by (simp add: of_nat_diff)
  have e1: "int (width p - 1 - j) = int (width p) - 1 - int j"
    using assms by (simp add: of_nat_diff)
  show ?thesis
    unfolding neighbour_count_cell_at cell_at_rotation [OF H W] e0 e1
    by (simp add: algebra_simps)
qed

lemma neighbour_count_identity:
  assumes "i < height p" "j < width p"
  shows "neighbour_count (remap_pattern p (table (height p) (width p) (\<lambda>i j. (i, j)))) i j
           = neighbour_count p i j"
proof -
  have H: "0 < height p" and W: "0 < width p" using assms by simp_all
  show ?thesis
    unfolding neighbour_count_cell_at cell_at_identity [OF H W] 
    by (simp add: algebra_simps)
qed

lemma neighbour_count_transposition:
  assumes "i < height p" "j < width p" "height p = width p"
  shows "neighbour_count (remap_pattern p (table (height p) (width p) (\<lambda>i j. (j, i)))) i j
           = neighbour_count p j i"
proof -
  have H: "0 < height p" and W: "0 < width p" using assms by simp_all
  show ?thesis
    unfolding neighbour_count_cell_at cell_at_transposition [OF H W assms(3)] 
    by (simp add: algebra_simps assms(3))
qed

lemma neighbour_count_transposition_hflip:
  assumes "i < height p" "j < width p" "height p = width p"
  shows "neighbour_count (remap_pattern p (table (height p) (width p) (\<lambda>i j. (width p - 1 - j, i)))) i j
           = neighbour_count p (width p - 1 - j) i"
proof -
  have H: "0 < height p" and W: "0 < width p" using assms by simp_all
  have e0: "int (width p - 1 - j) = int (width p) - 1 - int j"
    using assms by (simp add: of_nat_diff)
  show ?thesis
    unfolding neighbour_count_cell_at cell_at_transposition_hflip [OF H W assms(3)] e0
    by (simp add: algebra_simps assms(3))
qed

lemma neighbour_count_transposition_vflip:
  assumes "i < height p" "j < width p" "height p = width p"
  shows "neighbour_count (remap_pattern p (table (height p) (width p) (\<lambda>i j. (j, height p - 1 - i)))) i j
           = neighbour_count p j (height p - 1 - i)"
proof -
  have H: "0 < height p" and W: "0 < width p" using assms by simp_all
  have e0: "int (height p - 1 - i) = int (height p) - 1 - int i"
    using assms by (simp add: of_nat_diff)
  show ?thesis
    unfolding neighbour_count_cell_at cell_at_transposition_vflip [OF H W assms(3)] e0
    by (simp add: algebra_simps assms(3))
qed

lemma neighbour_count_transposition_rotation:
  assumes "i < height p" "j < width p" "height p = width p"
  shows "neighbour_count (remap_pattern p (table (height p) (width p) (\<lambda>i j. (width p - 1 - j, height p - 1 - i)))) i j
           = neighbour_count p (width p - 1 - j) (height p - 1 - i)"
proof -
  have H: "0 < height p" and W: "0 < width p" using assms by simp_all
  have e0: "int (width p - 1 - j) = int (width p) - 1 - int j"
    using assms by (simp add: of_nat_diff)
  have e1: "int (height p - 1 - i) = int (height p) - 1 - int i"
    using assms by (simp add: of_nat_diff)
  show ?thesis
    unfolding neighbour_count_cell_at cell_at_transposition_rotation [OF H W assms(3)] e0 e1
    by (simp add: algebra_simps assms(3))
qed

lemma integer_cells_remap_table:
  assumes "grid p" "integer_cells (config p)"
    and r: "\<And>i j. i < height p \<Longrightarrow> j < width p \<Longrightarrow> fst (f i j) < height p \<and> snd (f i j) < width p"
  shows "integer_cells (config (remap_pattern p (table (height p) (width p) f)))"
proof -
  have "config p ! fst (f i j) ! snd (f i j) \<noteq> None" if "i < height p" "j < width p" for i j
  proof -
    from r [OF that] have k: "fst (f i j) < length (config p)" and l: "snd (f i j) < width p"
      using assms(1) by (simp_all add: grid_def)
    then have "snd (f i j) < length (config p ! fst (f i j))"
      using assms(1) by (simp add: grid_def)
    from integer_cellsD [OF assms(2) k this] show ?thesis by auto
  qed
  then show ?thesis
    by (fastforce simp: integer_cells_def remap_pattern_def remap_def table_def)
qed

lemma rectangle_symmetries_identity:
  "rectangle_symmetries m n False =
     table (nat m) (nat n) (\<lambda>i j. (i, j)) # rectangle_symmetries m n True"
  by (simp add: rectangle_symmetries_def Let_def table_def py_range_def)

lemma step_commutes_table:
  assumes g: "grid p" and ic: "integer_cells (config p)"
    and r: "\<And>i j. i < height p \<Longrightarrow> j < width p \<Longrightarrow> fst (f i j) < height p \<and> snd (f i j) < width p"
    and nc: "\<And>i j. i < height p \<Longrightarrow> j < width p \<Longrightarrow>
               neighbour_count (remap_pattern p (table (height p) (width p) f)) i j =
               neighbour_count p (fst (f i j)) (snd (f i j))"
  shows "\<exists>s1 s2 s3. apply_symmetry p (table (height p) (width p) f) = Inr s1 \<and> step s1 = Inr s2 \<and>
           step p = Inr s3 \<and> apply_symmetry s3 (table (height p) (width p) f) = Inr s2"
proof -
  let ?t = "table (height p) (width p) f"
  have 1: "apply_symmetry p ?t = Inr (remap_pattern p ?t)"
    by (rule apply_symmetry_table [OF g r])
  have 2: "step (remap_pattern p ?t) = Inr (next_pattern (remap_pattern p ?t))"
    by (rule step_grid [OF grid_remap_table [OF g] integer_cells_remap_table [OF g ic r]])
  have 3: "step p = Inr (next_pattern p)"
    by (rule step_grid [OF g ic])
  have hn: "height (next_pattern p) = height p" "width (next_pattern p) = width p"
    by (simp_all add: next_pattern_def)
  have "apply_symmetry (next_pattern p) (table (height (next_pattern p)) (width (next_pattern p)) f)
          = Inr (remap_pattern (next_pattern p) (table (height (next_pattern p)) (width (next_pattern p)) f))"
    by (rule apply_symmetry_table [OF grid_next_pattern [OF g]]) (simp add: hn r)
  then have 4: "apply_symmetry (next_pattern p) ?t = Inr (next_pattern (remap_pattern p ?t))"
    by (simp add: hn next_remap [OF g r nc])
  from 1 2 3 4 show ?thesis by blast
qed

text \<open>
  C3: for a grid state with integer cells and every table the generator yields for its
  height and width, taking the symmetric image and then a step gives the same grid state
  as taking a step and then the symmetric image.
\<close>

theorem step_commutes_with_symmetry:
  assumes "grid s" and "integer_cells (config s)"
    and "t \<in> set (rectangle_symmetries (int (height s)) (int (width s)) skip_id)"
  shows "\<exists>s1 s2 s3. apply_symmetry s t = Inr s1 \<and> step s1 = Inr s2 \<and>
           step s = Inr s3 \<and> apply_symmetry s3 t = Inr s2"
proof -
  from assms(3) have "t \<in> set (rectangle_symmetries (int (height s)) (int (width s)) False)"
    by (cases skip_id) (simp_all add: rectangle_symmetries_identity)
  then consider
      "t = table (height s) (width s) (\<lambda>i j. (i, j))"
    | "t = horizontal_flip (height s) (width s)"
    | "t = vertical_flip (height s) (width s)"
    | "t = rotation_180 (height s) (width s)"
    | "height s = width s" "t = transposition (height s) (width s)"
    | "height s = width s" "t = transposition_hflip (height s) (width s)"
    | "height s = width s" "t = transposition_vflip (height s) (width s)"
    | "height s = width s" "t = transposition_rotation (height s) (width s)"
    by (auto simp: rectangle_symmetries_identity rectangle_symmetries_tables split: if_splits)
  then show ?thesis
  proof cases
    case 1
    show ?thesis unfolding 1
      by (rule step_commutes_table [OF assms(1,2)]) (simp_all add: neighbour_count_identity)
  next
    case 2
    show ?thesis unfolding 2 horizontal_flip_def
    proof (rule step_commutes_table [OF assms(1,2)], goal_cases)
      case (1 i j)
      then show ?case by simp
    next
      case (2 i j)
      show ?case unfolding fst_conv snd_conv by (rule neighbour_count_hflip [OF 2])
    qed
  next
    case 3
    show ?thesis unfolding 3 vertical_flip_def
    proof (rule step_commutes_table [OF assms(1,2)], goal_cases)
      case (1 i j)
      then show ?case by simp
    next
      case (2 i j)
      show ?case unfolding fst_conv snd_conv by (rule neighbour_count_vflip [OF 2])
    qed
  next
    case 4
    show ?thesis unfolding 4 rotation_180_def
    proof (rule step_commutes_table [OF assms(1,2)], goal_cases)
      case (1 i j)
      then show ?case by simp
    next
      case (2 i j)
      show ?case unfolding fst_conv snd_conv by (rule neighbour_count_rotation [OF 2])
    qed
  next
    case 5
    note sq = 5(1)
    show ?thesis unfolding 5(2) transposition_def
    proof (rule step_commutes_table [OF assms(1,2)], goal_cases)
      case (1 i j)
      then show ?case using sq by simp
    next
      case (2 i j)
      show ?case unfolding fst_conv snd_conv by (rule neighbour_count_transposition [OF 2 sq])
    qed
  next
    case 6
    note sq = 6(1)
    show ?thesis unfolding 6(2) transposition_hflip_def
    proof (rule step_commutes_table [OF assms(1,2)], goal_cases)
      case (1 i j)
      then show ?case using sq by simp
    next
      case (2 i j)
      show ?case unfolding fst_conv snd_conv by (rule neighbour_count_transposition_hflip [OF 2 sq])
    qed
  next
    case 7
    note sq = 7(1)
    show ?thesis unfolding 7(2) transposition_vflip_def
    proof (rule step_commutes_table [OF assms(1,2)], goal_cases)
      case (1 i j)
      then show ?case using sq by simp
    next
      case (2 i j)
      show ?case unfolding fst_conv snd_conv by (rule neighbour_count_transposition_vflip [OF 2 sq])
    qed
  next
    case 8
    note sq = 8(1)
    show ?thesis unfolding 8(2) transposition_rotation_def
    proof (rule step_commutes_table [OF assms(1,2)], goal_cases)
      case (1 i j)
      then show ?case using sq by simp
    next
      case (2 i j)
      show ?case unfolding fst_conv snd_conv by (rule neighbour_count_transposition_rotation [OF 2 sq])
    qed
  qed
qed

theorem step_commutes_with_symmetry_witness:
  "grid \<lparr>config = [[Some 0, Some 1, Some 1], [Some 0, Some 1, Some 0]], height = 2, width = 3\<rparr> \<and>
   integer_cells [[Some 0, Some 1, Some 1], [Some 0, Some 1, Some 0]] \<and>
   (\<exists>s1 s2 s3.
      apply_symmetry
        \<lparr>config = [[Some 0, Some 1, Some 1], [Some 0, Some 1, Some 0]], height = 2, width = 3\<rparr>
        [[(0, 2), (0, 1), (0, 0)], [(1, 2), (1, 1), (1, 0)]] = Inr s1 \<and>
      step s1 = Inr s2 \<and>
      step \<lparr>config = [[Some 0, Some 1, Some 1], [Some 0, Some 1, Some 0]], height = 2, width = 3\<rparr>
        = Inr s3 \<and>
      apply_symmetry s3 [[(0, 2), (0, 1), (0, 0)], [(1, 2), (1, 1), (1, 0)]] = Inr s2)"
proof -
  let ?s = "\<lparr>config = [[Some 0, Some 1, Some 1], [Some 0, Some 1, Some 0]], height = 2, width = 3\<rparr>"
  let ?t = "[[(0, 2), (0, 1), (0, 0)], [(1, 2), (1, 1), (1, 0)]] :: symmetry"
  have g: "grid ?s" by (simp add: grid_def)
  have c: "integer_cells (config ?s)" by (simp add: integer_cells_def)
  have e: "[0..<2] = [0, 1]" "[0..<3] = [0, 1, 2]"
    by (simp_all add: upt_rec)
  have "horizontal_flip 2 3 = ?t"
    by (simp add: horizontal_flip_def table_def e)
  then have t: "?t \<in> set (rectangle_symmetries (int (height ?s)) (int (width ?s)) True)"
    by (simp add: rectangle_symmetries_tables)
  from step_commutes_with_symmetry [OF g c t] g c show ?thesis by simp
qed

section \<open>Eventually periodic sequences\<close>

lemma funpow_shift:
  fixes f :: "'a \<Rightarrow> 'a"
  assumes "(f ^^ a) x = (f ^^ b) x"
  shows "(f ^^ (a + d)) x = (f ^^ (b + d)) x"
proof -
  have "(f ^^ (d + a)) x = (f ^^ d) ((f ^^ a) x)" "(f ^^ (d + b)) x = (f ^^ d) ((f ^^ b) x)"
    by (simp_all add: funpow_add)
  then have "(f ^^ (d + a)) x = (f ^^ (d + b)) x"
    using assms by simp
  then show ?thesis by (simp add: add.commute)
qed

lemma recurs_shift: "recurs f x t p \<Longrightarrow> recurs f x (t + d) p"
  unfolding recurs_def using funpow_shift [where f = f and a = "t + p" and x = x and b = t and d = d]
  by (simp add: add.assoc add.left_commute add.commute)

lemma recurs_multiple:
  assumes "recurs f x t p"
  shows "(f ^^ (t + k * p)) x = (f ^^ t) x"
proof (induction k)
  case 0
  show ?case by simp
next
  case (Suc k)
  have "(f ^^ (t + p + k * p)) x = (f ^^ (t + k * p)) x"
    using assms funpow_shift [where f = f and a = "t + p" and x = x and b = t and d = "k * p"]
    by (simp add: recurs_def)
  then show ?case using Suc.IH by (simp add: add.assoc)
qed

lemma cycle_length_recurs:
  assumes "recurs f x t p"
  shows "\<exists>t'. recurs f x t' (cycle_length f x)"
  unfolding cycle_length_def
  by (rule LeastI [of "\<lambda>p. \<exists>t. recurs f x t p" p]) (use assms in blast)

lemma transient_recurs:
  assumes "recurs f x t p"
  shows "recurs f x (transient_length f x) (cycle_length f x)"
proof -
  from cycle_length_recurs [OF assms] obtain t' where "recurs f x t' (cycle_length f x)" ..
  then show ?thesis
    unfolding transient_length_def by (rule LeastI)
qed

lemma cycle_length_pos: "recurs f x t p \<Longrightarrow> 0 < cycle_length f x"
  using transient_recurs [of f x t p] by (simp add: recurs_def)

lemma cycle_length_le: "recurs f x t p \<Longrightarrow> cycle_length f x \<le> p"
  unfolding cycle_length_def by (rule Least_le) blast

lemma periodic_from_transient:
  assumes "recurs f x t p" and "transient_length f x \<le> i"
  shows "(f ^^ (i + k * cycle_length f x)) x = (f ^^ i) x"
proof -
  obtain d where d: "i = transient_length f x + d"
    using assms(2) by (metis le_add_diff_inverse)
  have "recurs f x i (cycle_length f x)"
    unfolding d by (rule recurs_shift [OF transient_recurs [OF assms(1)]])
  then show ?thesis by (rule recurs_multiple)
qed

lemma recurs_dvd:
  assumes r: "recurs f x t p"
  shows "cycle_length f x dvd p"
proof (rule ccontr)
  let ?l = "cycle_length f x"
  let ?T = "t + transient_length f x"
  assume nd: "\<not> ?l dvd p"
  then have rpos: "0 < p mod ?l" by (simp add: dvd_eq_mod_eq_0)
  have lpos: "0 < ?l" by (rule cycle_length_pos [OF r])
  have "recurs f x ?T p" by (rule recurs_shift [OF r])
  then have 1: "(f ^^ (?T + p)) x = (f ^^ ?T) x" by (simp add: recurs_def)
  have "(f ^^ (?T + p mod ?l + (p div ?l) * ?l)) x = (f ^^ (?T + p mod ?l)) x"
    by (rule periodic_from_transient [OF r]) simp
  moreover have "?T + p mod ?l + (p div ?l) * ?l = ?T + p"
    by (simp add: add.assoc mod_div_mult_eq)
  ultimately have "(f ^^ (?T + p mod ?l)) x = (f ^^ ?T) x"
    using 1 by simp
  then have "recurs f x ?T (p mod ?l)"
    using rpos by (simp add: recurs_def)
  then have "?l \<le> p mod ?l" by (rule cycle_length_le)
  moreover have "p mod ?l < ?l" using lpos by simp
  ultimately show False by simp
qed

lemma recurs_after_transient:
  assumes r: "recurs f x t p"
  shows "transient_length f x \<le> t"
proof -
  let ?l = "cycle_length f x"
  let ?m = "transient_length f x"
  have ppos: "0 < p" using r by (simp add: recurs_def)
  have a: "(f ^^ (t + ?m * p)) x = (f ^^ t) x"
    by (rule recurs_multiple [OF r])
  have "?m \<le> ?m * p" using ppos by (cases p) simp_all
  then have ge: "?m \<le> t + ?m * p" by (rule trans_le_add2)
  have "(f ^^ (t + ?m * p + 1 * ?l)) x = (f ^^ (t + ?m * p)) x"
    by (rule periodic_from_transient [OF r ge])
  then have b: "(f ^^ (t + ?m * p + ?l)) x = (f ^^ (t + ?m * p)) x" by simp
  have "(f ^^ (t + ?l)) x = (f ^^ (t + ?m * p + ?l)) x"
    using funpow_shift [OF a, where d = ?l] by simp
  then have "(f ^^ (t + ?l)) x = (f ^^ t) x"
    using a b by simp
  then have "recurs f x t ?l"
    using cycle_length_pos [OF r] by (simp add: recurs_def)
  then show ?thesis
    unfolding transient_length_def by (rule Least_le)
qed

lemma sequence_eq_iff:
  assumes r: "recurs f x t p" and ij: "i \<le> j"
  shows "(f ^^ i) x = (f ^^ j) x \<longleftrightarrow>
           i = j \<or> (transient_length f x \<le> i \<and> cycle_length f x dvd (j - i))"
proof
  assume eq: "(f ^^ i) x = (f ^^ j) x"
  show "i = j \<or> (transient_length f x \<le> i \<and> cycle_length f x dvd (j - i))"
  proof (cases "i = j")
    case True
    then show ?thesis by simp
  next
    case False
    then have "recurs f x i (j - i)"
      using ij eq by (simp add: recurs_def)
    then show ?thesis
      using recurs_dvd [of f x i "j - i"] recurs_after_transient [of f x i "j - i"] by simp
  qed
next
  assume "i = j \<or> (transient_length f x \<le> i \<and> cycle_length f x dvd (j - i))"
  then show "(f ^^ i) x = (f ^^ j) x"
  proof
    assume "i = j"
    then show ?thesis by simp
  next
    assume a: "transient_length f x \<le> i \<and> cycle_length f x dvd (j - i)"
    then obtain k where k: "j - i = k * cycle_length f x"
      by (auto simp: dvd_def mult.commute)
    then have "j = i + k * cycle_length f x" using ij by simp
    then show ?thesis
      using periodic_from_transient [OF r, of i k] a by simp
  qed
qed

section \<open>The loops of \<open>detect_cycle\<close>\<close>

lemma board_next: "board p \<Longrightarrow> board (next_pattern p)"
  by (simp add: board_def grid_next_pattern integer_cells_next)

lemma board_funpow: "board p \<Longrightarrow> board ((next_pattern ^^ n) p)"
  by (induction n) (simp_all add: board_next)

lemma step_board: "board p \<Longrightarrow> step p = Inr (next_pattern p)"
  by (simp add: board_def step_grid)

lemma copy_grid:
  assumes "grid p"
  shows "copy p = Inr p"
proof -
  have H: "0 < height p" using assms by (rule grid_height_pos)
  have "length (config p ! 0) = width p"
    by (rule grid_row_length [OF assms H])
  moreover have "length (config p) = height p"
    using assms by (simp add: grid_def)
  ultimately have "life_pattern (config p) = Inr \<lparr>config = config p, height = height p, width = width p\<rparr>"
    using H by (rule_tac life_pattern_grid) simp_all
  then show ?thesis by (simp add: copy_def)
qed

lemma pattern_ne_grid:
  assumes "grid a" "grid b"
  shows "pattern_ne a b \<longleftrightarrow> a \<noteq> b"
proof -
  have "a = b" if c: "config a = config b"
  proof -
    have h: "height a = height b"
      using assms c by (simp add: grid_def)
    have "0 < height a" "0 < height b"
      using assms by (simp_all add: grid_def)
    then have "length (config a ! 0) = width a" "length (config b ! 0) = width b"
      using assms grid_row_length by blast+
    then have "width a = width b" using c by simp
    with h c show ?thesis by simp
  qed
  then show ?thesis by (auto simp: pattern_ne_def)
qed

lemma funpow_next_Suc: "(next_pattern ^^ n) (next_pattern p) = (next_pattern ^^ Suc n) p"
  by (simp add: funpow_swap1)

lemma find_repetition_meets:
  assumes "board t" "board h"
    and "(next_pattern ^^ n) t = (next_pattern ^^ (2 * n)) h"
    and "\<And>k. k < n \<Longrightarrow> (next_pattern ^^ k) t \<noteq> (next_pattern ^^ (2 * k)) h"
  shows "find_repetition t h = Some (Inr ((next_pattern ^^ n) t, (next_pattern ^^ (2 * n)) h))"
  using assms
proof (induction n arbitrary: t h)
  case 0
  then have "t = h" by simp
  then show ?case
    by (subst find_repetition.simps) (simp add: pattern_ne_def)
next
  case (Suc n)
  have ne: "pattern_ne t h"
    using Suc.prems(1,2) Suc.prems(4) [of 0] by (simp add: pattern_ne_grid board_def)
  let ?t = "next_pattern t" and ?h = "next_pattern (next_pattern h)"
  have bt: "board ?t" and bh: "board ?h"
    using Suc.prems(1,2) by (simp_all add: board_next)
  have eq: "(next_pattern ^^ n) ?t = (next_pattern ^^ (2 * n)) ?h"
    using Suc.prems(3) by (simp add: funpow_swap1)
  have neq: "(next_pattern ^^ k) ?t \<noteq> (next_pattern ^^ (2 * k)) ?h" if "k < n" for k
    using Suc.prems(4) [of "Suc k"] that by (simp add: funpow_swap1)
  have "find_repetition t h = find_repetition ?t ?h"
    by (subst find_repetition.simps)
       (simp add: ne step_board Suc.prems(1,2) board_next)
  also have "\<dots> = Some (Inr ((next_pattern ^^ n) ?t, (next_pattern ^^ (2 * n)) ?h))"
    by (rule Suc.IH [OF bt bh eq neq])
  finally show ?case by (simp add: funpow_swap1)
qed

lemma find_position_meets:
  assumes "board t" "board h"
    and "(next_pattern ^^ n) t = (next_pattern ^^ n) h"
    and "\<And>k. k < n \<Longrightarrow> (next_pattern ^^ k) t \<noteq> (next_pattern ^^ k) h"
  shows "find_position t h c = Some (Inr ((next_pattern ^^ n) t, (next_pattern ^^ n) h, c + n))"
  using assms
proof (induction n arbitrary: t h c)
  case 0
  then have "t = h" by simp
  then show ?case
    by (subst find_position.simps) (simp add: pattern_ne_def)
next
  case (Suc n)
  have ne: "pattern_ne t h"
    using Suc.prems(1,2) Suc.prems(4) [of 0] by (simp add: pattern_ne_grid board_def)
  let ?t = "next_pattern t" and ?h = "next_pattern h"
  have bt: "board ?t" and bh: "board ?h"
    using Suc.prems(1,2) by (simp_all add: board_next)
  have eq: "(next_pattern ^^ n) ?t = (next_pattern ^^ n) ?h"
    using Suc.prems(3) by (simp add: funpow_swap1)
  have neq: "(next_pattern ^^ k) ?t \<noteq> (next_pattern ^^ k) ?h" if "k < n" for k
    using Suc.prems(4) [of "Suc k"] that by (simp add: funpow_swap1)
  have "find_position t h c = find_position ?t ?h (c + 1)"
    by (subst find_position.simps)
       (simp add: ne step_board Suc.prems(1,2))
  also have "\<dots> = Some (Inr ((next_pattern ^^ n) ?t, (next_pattern ^^ n) ?h, c + 1 + n))"
    by (rule Suc.IH [OF bt bh eq neq])
  finally show ?case by (simp add: funpow_swap1)
qed

lemma find_length_meets:
  assumes "board t" "board h"
    and "t = (next_pattern ^^ n) h"
    and "\<And>k. k < n \<Longrightarrow> t \<noteq> (next_pattern ^^ k) h"
  shows "find_length t h c = Some (Inr (c + n))"
  using assms
proof (induction n arbitrary: h c)
  case 0
  then have "t = h" by simp
  then show ?case
    by (subst find_length.simps) (simp add: pattern_ne_def)
next
  case (Suc n)
  have ne: "pattern_ne t h"
    using Suc.prems(1,2) Suc.prems(4) [of 0] by (simp add: pattern_ne_grid board_def)
  let ?h = "next_pattern h"
  have bh: "board ?h"
    using Suc.prems(2) by (simp add: board_next)
  have eq: "t = (next_pattern ^^ n) ?h"
    using Suc.prems(3) by (simp add: funpow_swap1)
  have neq: "t \<noteq> (next_pattern ^^ k) ?h" if "k < n" for k
    using Suc.prems(4) [of "Suc k"] that by (simp add: funpow_swap1)
  have "find_length t h c = find_length t ?h (c + 1)"
    by (subst find_length.simps)
       (simp add: ne step_board Suc.prems(2))
  also have "\<dots> = Some (Inr (c + 1 + n))"
    by (rule Suc.IH [OF Suc.prems(1) bh eq neq])
  finally show ?case by simp
qed

section \<open>Every trajectory is eventually periodic\<close>

lemma finite_binary_grids:
  "finite {p. grid p \<and> height p = H \<and> width p = W \<and> binary (config p)}"
proof -
  let ?rows = "{row. set row \<subseteq> {Some 0, Some (1::int)} \<and> length row = W}"
  let ?cfgs = "{cfg. set cfg \<subseteq> ?rows \<and> length cfg = H}"
  have "finite ?rows" by (rule finite_lists_length_eq) simp
  then have "finite ?cfgs" by (rule finite_lists_length_eq)
  then have "finite ((\<lambda>cfg. \<lparr>config = cfg, height = H, width = W\<rparr>) ` ?cfgs)"
    by (rule finite_imageI)
  moreover have "{p. grid p \<and> height p = H \<and> width p = W \<and> binary (config p)}
      \<subseteq> (\<lambda>cfg. \<lparr>config = cfg, height = H, width = W\<rparr>) ` ?cfgs"
  proof
    fix p
    assume "p \<in> {p. grid p \<and> height p = H \<and> width p = W \<and> binary (config p)}"
    then have p: "grid p" "height p = H" "width p = W" "binary (config p)" by simp_all
    have "config p \<in> ?cfgs"
      using p by (auto simp: grid_def binary_def)
    moreover have "p = \<lparr>config = config p, height = H, width = W\<rparr>"
      using p by simp
    ultimately show "p \<in> (\<lambda>cfg. \<lparr>config = cfg, height = H, width = W\<rparr>) ` ?cfgs"
      by (rule_tac image_eqI)
  qed
  ultimately show ?thesis by (rule rev_finite_subset)
qed

lemma height_funpow: "height ((next_pattern ^^ n) p) = height p"
  by (induction n) (simp_all add: next_pattern_def)

lemma width_funpow: "width ((next_pattern ^^ n) p) = width p"
  by (induction n) (simp_all add: next_pattern_def)

lemma board_recurs:
  assumes "board p"
  shows "\<exists>t k. recurs next_pattern p t k"
proof -
  let ?B = "{q. grid q \<and> height q = height p \<and> width q = width p \<and> binary (config q)}"
  let ?g = "\<lambda>n. (next_pattern ^^ Suc n) p"
  have "?g n \<in> ?B" for n
  proof -
    have "board ((next_pattern ^^ n) p)" using assms by (rule board_funpow)
    then have "grid (?g n)" by (simp add: board_def grid_next_pattern)
    moreover have "binary (config (?g n))" by (simp add: binary_next)
    moreover have "height (?g n) = height p" "width (?g n) = width p"
      by (rule height_funpow, rule width_funpow)
    ultimately show ?thesis by simp
  qed
  then have "range ?g \<subseteq> ?B" by blast
  then have "finite (range ?g)"
    using finite_binary_grids by (rule finite_subset)
  then have "\<not> inj ?g"
    using finite_imageD by fastforce
  then obtain i j where ij: "i \<noteq> j" "?g i = ?g j"
    by (auto simp: inj_on_def)
  define a where "a = min i j"
  define b where "b = max i j"
  have ab: "a < b" "?g a = ?g b"
    using ij by (auto simp: a_def b_def min_def max_def)
  have "Suc a + (b - a) = Suc b" using ab(1) by simp
  then have "recurs next_pattern p (Suc a) (b - a)"
    using ab unfolding recurs_def by simp
  then show ?thesis by blast
qed

section \<open>What \<open>detect_cycle\<close> returns\<close>

lemma funpow_funpow: "(next_pattern ^^ k) ((next_pattern ^^ m) p) = (next_pattern ^^ (k + m)) p"
  by (simp add: funpow_add)

lemma funpow_after:
  "(next_pattern ^^ k) (next_pattern ((next_pattern ^^ m) p)) = (next_pattern ^^ (m + Suc k)) p"
proof -
  have "(next_pattern ^^ (m + Suc k)) p = (next_pattern ^^ (Suc k + m)) p"
    by (simp only: add.commute)
  also have "\<dots> = (next_pattern ^^ Suc k) ((next_pattern ^^ m) p)"
    by (simp only: funpow_add comp_apply)
  also have "\<dots> = (next_pattern ^^ k) (next_pattern ((next_pattern ^^ m) p))"
    by (simp add: funpow_swap1)
  finally show ?thesis by simp
qed

lemma detect_cycle_board:
  assumes b: "board p"
  shows "detect_cycle p =
           Some (Inr (transient_length next_pattern p, cycle_length next_pattern p))"
proof -
  let ?f = "next_pattern"
  let ?m = "transient_length ?f p"
  let ?l = "cycle_length ?f p"
  from board_recurs [OF b] obtain t0 k0 where r: "recurs ?f p t0 k0" by blast
  note iff = sequence_eq_iff [OF r]
  have lpos: "0 < ?l" by (rule cycle_length_pos [OF r])
  have bx: "board ((?f ^^ n) p)" for n using b by (rule board_funpow)
  \<comment> \<open>Phase 1\<close>
  let ?P1 = "\<lambda>n. (?f ^^ Suc n) p = (?f ^^ (2 * Suc n)) p"
  have ex1: "?P1 (?l * Suc ?m - 1)"
  proof -
    have e: "Suc (?l * Suc ?m - 1) = ?l * Suc ?m" using lpos by simp
    have "?m \<le> ?l * Suc ?m" using lpos by (cases ?l) simp_all
    then show ?thesis
      unfolding e using iff [of "?l * Suc ?m" "2 * (?l * Suc ?m)"] by simp
  qed
  define n1 where "n1 = (LEAST n. ?P1 n)"
  have P1: "?P1 n1" unfolding n1_def using ex1 by (rule LeastI)
  have notP1: "\<not> ?P1 k" if "k < n1" for k
    using that unfolding n1_def by (rule not_less_Least)
  define v where "v = Suc n1"
  have v: "?m \<le> v" "?l dvd v"
    using P1 iff [of v "2 * v"] by (simp_all add: v_def)
  have ph1: "find_repetition (?f p) (?f (?f p)) = Some (Inr ((?f ^^ v) p, (?f ^^ (2 * v)) p))"
  proof -
    have "find_repetition (?f p) (?f (?f p)) =
        Some (Inr ((?f ^^ n1) (?f p), (?f ^^ (2 * n1)) (?f (?f p))))"
    proof (rule find_repetition_meets)
      show "board (?f p)" "board (?f (?f p))" using b by (simp_all add: board_next)
      show "(?f ^^ n1) (?f p) = (?f ^^ (2 * n1)) (?f (?f p))"
        using P1 by (simp add: funpow_swap1)
      show "(?f ^^ k) (?f p) \<noteq> (?f ^^ (2 * k)) (?f (?f p))" if "k < n1" for k
        using notP1 [OF that] by (simp add: funpow_swap1)
    qed
    then show ?thesis by (simp add: v_def funpow_swap1)
  qed
  \<comment> \<open>Phase 2\<close>
  have vpos: "0 < v" by (simp add: v_def)
  have v2: "?l dvd 2 * v" using v(2) by simp
  have eq2: "(?f ^^ k) p = (?f ^^ (2 * v + k)) p \<longleftrightarrow> ?m \<le> k" for k
    using iff [of k "2 * v + k"] v2 vpos by simp
  have ph2: "find_position p ((?f ^^ (2 * v)) p) 0 =
      Some (Inr ((?f ^^ ?m) p, (?f ^^ ?m) ((?f ^^ (2 * v)) p), 0 + ?m))"
  proof (rule find_position_meets)
    show "board p" by (rule b)
    show "board ((?f ^^ (2 * v)) p)" by (rule bx)
    show "(?f ^^ ?m) p = (?f ^^ ?m) ((?f ^^ (2 * v)) p)"
      using eq2 [of ?m] by (simp add: funpow_funpow add.commute)
    show "(?f ^^ k) p \<noteq> (?f ^^ k) ((?f ^^ (2 * v)) p)" if "k < ?m" for k
      using eq2 [of k] that by (simp add: funpow_funpow add.commute)
  qed
  \<comment> \<open>Phase 3\<close>
  have eq3: "(?f ^^ ?m) p = (?f ^^ (?m + Suc k)) p \<longleftrightarrow> ?l dvd Suc k" for k
    using iff [of ?m "?m + Suc k"] by simp
  have ph3: "find_length ((?f ^^ ?m) p) (?f ((?f ^^ ?m) p)) 1 = Some (Inr (1 + (?l - 1)))"
  proof (rule find_length_meets)
    show "board ((?f ^^ ?m) p)" by (rule bx)
    show "board (?f ((?f ^^ ?m) p))" using bx by (rule board_next)
    have "(?f ^^ ?m) p = (?f ^^ (?m + Suc (?l - 1))) p"
      unfolding eq3 using lpos by simp
    then show "(?f ^^ ?m) p = (?f ^^ (?l - 1)) (?f ((?f ^^ ?m) p))"
      unfolding funpow_after .
    show "(?f ^^ ?m) p \<noteq> (?f ^^ k) (?f ((?f ^^ ?m) p))" if "k < ?l - 1" for k
    proof -
      have "\<not> ?l dvd Suc k" using that by (auto dest: dvd_imp_le)
      then have "(?f ^^ ?m) p \<noteq> (?f ^^ (?m + Suc k)) p" unfolding eq3 .
      then show ?thesis unfolding funpow_after .
    qed
  qed
  have ph3': "find_length ((?f ^^ ?m) p) (?f ((?f ^^ ?m) p)) (Suc 0) = Some (Inr ?l)"
    using ph3 lpos by simp
  have s0: "step p = Inr (?f p)" "step (?f p) = Inr (?f (?f p))"
    using b by (simp_all add: step_board board_next)
  have c: "copy p = Inr p" using b by (simp add: copy_grid board_def)
  have s3: "step ((?f ^^ ?m) p) = Inr (?f ((?f ^^ ?m) p))"
    using bx by (rule step_board)
  show ?thesis
    unfolding detect_cycle_def using lpos by (simp add: s0 ph1 c ph2 s3 ph3')
qed

section \<open>Floyd's algorithm is correct\<close>

lemma step_times_board:
  assumes "board p"
  shows "step_times n p = Inr ((next_pattern ^^ n) p)"
proof (induction n)
  case 0
  show ?case by (simp add: step_times_def)
next
  case (Suc n)
  have "step ((next_pattern ^^ n) p) = Inr (next_pattern ((next_pattern ^^ n) p))"
    by (rule step_board [OF board_funpow [OF assms]])
  then show ?case
    using Suc.IH by (simp add: step_times_def for_each_append)
qed

text \<open>
  C2: on every grid state with integer cells, \<open>detect_cycle\<close> returns a pair \<open>(t, p)\<close> with
  \<open>p \<ge> 1\<close> such that \<open>t + p\<close> steps and \<open>t\<close> steps lead to the same grid state; \<open>t\<close> is the
  least index and \<open>p\<close> the least positive period for which the trajectory repeats.
\<close>

theorem detect_cycle_correct:
  assumes "grid s" and "integer_cells (config s)"
  shows "\<exists>t p. detect_cycle s = Some (Inr (t, p)) \<and> 1 \<le> p \<and>
           (\<exists>q. step_times t s = Inr q \<and> step_times (t + p) s = Inr q) \<and>
           (\<forall>t' p'. 1 \<le> p' \<and> step_times (t' + p') s = step_times t' s \<longrightarrow> t \<le> t' \<and> p \<le> p')"
proof -
  let ?f = "next_pattern"
  let ?m = "transient_length ?f s"
  let ?l = "cycle_length ?f s"
  have b: "board s" using assms by (simp add: board_def)
  from board_recurs [OF b] obtain t0 k0 where r: "recurs ?f s t0 k0" by blast
  have rm: "recurs ?f s ?m ?l" by (rule transient_recurs [OF r])
  have 1: "detect_cycle s = Some (Inr (?m, ?l))" by (rule detect_cycle_board [OF b])
  have 2: "1 \<le> ?l" using rm by (simp add: recurs_def)
  have 3: "step_times ?m s = Inr ((?f ^^ ?m) s) \<and> step_times (?m + ?l) s = Inr ((?f ^^ ?m) s)"
    using rm by (simp add: step_times_board [OF b] recurs_def)
  have 4: "?m \<le> t' \<and> ?l \<le> p'" if "1 \<le> p' \<and> step_times (t' + p') s = step_times t' s" for t' p'
  proof -
    from that have "recurs ?f s t' p'"
      by (simp add: step_times_board [OF b] recurs_def)
    then show ?thesis
      by (simp add: recurs_after_transient cycle_length_le)
  qed
  from 1 2 3 4 show ?thesis by blast
qed

theorem detect_cycle_correct_witness:
  "grid \<lparr>config = [[Some 0, Some 1, Some 1], [Some 0, Some 1, Some 0]], height = 2, width = 3\<rparr> \<and>
   integer_cells [[Some 0, Some 1, Some 1], [Some 0, Some 1, Some 0]] \<and>
   (\<exists>t p. detect_cycle
            \<lparr>config = [[Some 0, Some 1, Some 1], [Some 0, Some 1, Some 0]], height = 2, width = 3\<rparr>
            = Some (Inr (t, p)) \<and> 1 \<le> p)"
proof -
  let ?s = "\<lparr>config = [[Some 0, Some 1, Some 1], [Some 0, Some 1, Some 0]], height = 2, width = 3\<rparr>"
  have g: "grid ?s" by (simp add: grid_def)
  have c: "integer_cells (config ?s)" by (simp add: integer_cells_def)
  from detect_cycle_correct [OF g c] obtain t p where
    "detect_cycle ?s = Some (Inr (t, p))" "1 \<le> p" by blast
  then show ?thesis using g c by auto
qed

section \<open>The candidates of the search\<close>

lemma combinations_subset: "ys \<in> set (combinations xs k) \<Longrightarrow> set ys \<subseteq> set xs"
  by (induction xs k arbitrary: ys rule: combinations.induct) (auto, blast+)

lemma marked_assign:
  assumes m: "marked N subs k cfg" and k: "k < length subs"
    and r: "fst (subs ! k) < 3" "snd (subs ! k) < N"
  shows "marked N subs (Suc k) (cfg[fst (subs ! k) := (cfg ! fst (subs ! k))[snd (subs ! k) := Some 1]])"
proof -
  have t: "set (take (Suc k) subs) = insert (subs ! k) (set (take k subs))"
    using k by (simp add: take_Suc_conv_app_nth)
  obtain a b where ab: "subs ! k = (a, b)" by (cases "subs ! k")
  show ?thesis
    using m r unfolding marked_def t ab
    by (auto simp: nth_list_update)
qed

lemma marked_all:
  assumes "marked N subs (length subs) cfg"
  shows "cfg = layout N subs"
proof (rule nth_equalityI)
  show "length cfg = length (layout N subs)"
    using assms by (simp add: marked_def layout_def)
next
  fix i
  assume "i < length cfg"
  then have i: "i < 3" using assms by (simp add: marked_def)
  show "cfg ! i = layout N subs ! i"
  proof (rule nth_equalityI)
    show "length (cfg ! i) = length (layout N subs ! i)"
      using assms i by (simp add: marked_def layout_def)
  next
    fix j
    assume "j < length (cfg ! i)"
    then have "j < N" using assms i by (simp add: marked_def)
    then show "cfg ! i ! j = layout N subs ! i ! j"
      using assms i by (simp add: marked_def layout_def)
  qed
qed

lemma build_candidate:
  assumes "\<And>ij. ij \<in> set subs \<Longrightarrow> fst ij < 3 \<and> snd ij < N"
  shows "for_each (\<lambda>(i, j) cfg. assign2 cfg i j (Some 1)) subs (replicate 3 (replicate N (Some 0)))
           = Inr (layout N subs)"
proof -
  let ?body = "\<lambda>(i, j) cfg. assign2 cfg i j (Some 1)"
  have "\<exists>cfg. for_each ?body subs (replicate 3 (replicate N (Some 0))) = Inr cfg
            \<and> marked N subs (length subs) cfg"
  proof (rule for_each_nth_rule [where P = "marked N subs"])
    show "marked N subs 0 (replicate 3 (replicate N (Some 0)))"
      by (simp add: marked_def)
  next
    fix k s
    assume k: "k < length subs" and s: "marked N subs k s"
    obtain a b where ab: "subs ! k = (a, b)" by (cases "subs ! k")
    have r: "fst (subs ! k) < 3" "snd (subs ! k) < N"
      using assms [of "subs ! k"] k by simp_all
    then have "a < length s" "b < length (s ! a)"
      using s ab by (simp_all add: marked_def)
    then have "?body (subs ! k) s = Inr (s[a := (s ! a)[b := Some 1]])"
      by (simp add: ab assign2_def)
    then show "\<exists>s'. ?body (subs ! k) s = Inr s' \<and> marked N subs (Suc k) s'"
      using marked_assign [OF s k r] by (simp add: ab)
  qed
  then show ?thesis using marked_all by blast
qed

lemma candidate_board: "board (candidate N subs)"
  by (auto simp: board_def grid_def integer_cells_def candidate_def layout_def)

lemma candidate_binary: "binary (config (candidate N subs))"
  by (auto simp: binary_def candidate_def layout_def)

lemma life_pattern_layout: "life_pattern (layout N subs) = Inr (candidate N subs)"
  unfolding candidate_def
  by (rule life_pattern_grid) (simp_all add: layout_def)

section \<open>One candidate of the search\<close>

lemma generated_table_fits:
  assumes "t \<in> set (rectangle_symmetries m n skip_id)"
  shows "table_for (nat m) (nat n) t"
proof -
  from assms have "t \<in> set (rectangle_symmetries m n False)"
    by (cases skip_id) (simp_all add: rectangle_symmetries_identity)
  then consider
      "t = table (nat m) (nat n) (\<lambda>i j. (i, j))"
    | "t = horizontal_flip (nat m) (nat n)"
    | "t = vertical_flip (nat m) (nat n)"
    | "t = rotation_180 (nat m) (nat n)"
    | "m = n" "t = transposition (nat m) (nat n)"
    | "m = n" "t = transposition_hflip (nat m) (nat n)"
    | "m = n" "t = transposition_vflip (nat m) (nat n)"
    | "m = n" "t = transposition_rotation (nat m) (nat n)"
    by (auto simp: rectangle_symmetries_identity rectangle_symmetries_tables split: if_splits)
  then show ?thesis
  proof cases
    case 1
    show ?thesis unfolding 1 by (rule table_for_table) simp
  next
    case 2
    show ?thesis unfolding 2 horizontal_flip_def by (rule table_for_table) auto
  next
    case 3
    show ?thesis unfolding 3 vertical_flip_def by (rule table_for_table) auto
  next
    case 4
    show ?thesis unfolding 4 rotation_180_def by (rule table_for_table) auto
  next
    case 5
    show ?thesis unfolding 5(2) transposition_def by (rule table_for_table) (simp add: 5(1))
  next
    case 6
    show ?thesis unfolding 6(2) transposition_hflip_def
      by (rule table_for_table) (use 6(1) in auto)
  next
    case 7
    show ?thesis unfolding 7(2) transposition_vflip_def
      by (rule table_for_table) (use 7(1) in auto)
  next
    case 8
    show ?thesis unfolding 8(2) transposition_rotation_def
      by (rule table_for_table) (use 8(1) in auto)
  qed
qed

lemma grid_remap:
  "grid p \<Longrightarrow> table_for (height p) (width p) t \<Longrightarrow> grid (remap_pattern p t)"
  by (auto simp: grid_def remap_pattern_def remap_def table_for_def)

lemma symmetric_images_grid:
  assumes "grid p" and "\<And>t. t \<in> set ts \<Longrightarrow> table_for (height p) (width p) t"
  shows "symmetric_images p ts = Inr (map (remap_pattern p) ts)"
  using assms(2)
proof (induction ts)
  case Nil
  show ?case by simp
next
  case (Cons t ts)
  have "apply_symmetry p t = Inr (remap_pattern p t)"
    by (rule apply_symmetry_grid [OF assms(1)]) (simp add: Cons.prems)
  moreover have "symmetric_images p ts = Inr (map (remap_pattern p) ts)"
    by (rule Cons.IH) (simp add: Cons.prems)
  ultimately show ?case by simp
qed

lemma member_py_grid:
  assumes "grid x" and "\<And>y. y \<in> S \<Longrightarrow> grid y"
  shows "member_py x S \<longleftrightarrow> x \<in> S"
proof -
  have "pattern_eq y x \<longleftrightarrow> y = x" if "y \<in> S" for y
    using pattern_ne_grid [OF assms(2) [OF that] assms(1)]
    by (simp add: pattern_eq_def pattern_ne_def)
  then show ?thesis by (auto simp: member_py_def)
qed

lemma add_py_grid:
  assumes "grid x" and "\<And>y. y \<in> S \<Longrightarrow> grid y"
  shows "add_py x S = insert x S"
  using member_py_grid [OF assms] by (auto simp: add_py_def)

lemma examine_candidate:
  assumes subs: "\<And>ij. ij \<in> set subs \<Longrightarrow> fst ij < 3 \<and> snd ij < nat n"
    and V: "\<And>y. y \<in> V \<Longrightarrow> grid y" and O: "\<And>y. y \<in> Os \<Longrightarrow> grid y"
  shows "examine n subs (V, Os) = Some (Inr (examined n subs (V, Os)))"
proof -
  let ?c = "candidate (nat n) subs"
  let ?ts = "rectangle_symmetries 3 n True"
  have b: "board ?c" by (rule candidate_board)
  then have g: "grid ?c" by (simp add: board_def)
  have hw: "height ?c = 3" "width ?c = nat n" by (simp_all add: candidate_def)
  have fit: "table_for (height ?c) (width ?c) t" if "t \<in> set ?ts" for t
    using generated_table_fits [OF that] by (simp add: hw)
  have 1: "for_each (\<lambda>(i, j) cfg. assign2 cfg i j (Some 1)) subs
             (replicate 3 (replicate (nat n) (Some 0))) = Inr (layout (nat n) subs)"
    by (rule build_candidate [OF subs])
  have 2: "life_pattern (layout (nat n) subs) = Inr ?c" by (rule life_pattern_layout)
  have 3: "symmetric_images ?c ?ts = Inr (map (remap_pattern ?c) ?ts)"
    by (rule symmetric_images_grid [OF g fit])
  have 4: "list_ex (\<lambda>q. member_py q V) (map (remap_pattern ?c) ?ts)
             \<longleftrightarrow> (\<exists>t\<in>set ?ts. remap_pattern ?c t \<in> V)"
    using member_py_grid [OF grid_remap [OF g fit] V] by (simp add: list_ex_iff)
  have 5: "add_py ?c V = insert ?c V" by (rule add_py_grid [OF g V])
  have 6: "detect_cycle ?c = Some (Inr (transient_length next_pattern ?c, cycle_length next_pattern ?c))"
    by (rule detect_cycle_board [OF b])
  have 7: "for_each (\<lambda>i q. step q) [0..<transient_length next_pattern ?c] ?c = Inr (landing ?c)"
    using step_times_board [OF b] by (simp add: step_times_def landing_def)
  have gl: "grid (landing ?c)"
    using board_funpow [OF b] by (simp add: landing_def board_def)
  have 8: "add_py (landing ?c) (insert ?c V) = insert (landing ?c) (insert ?c V)"
    by (rule add_py_grid [OF gl]) (use g V in auto)
  have 9: "add_py (landing ?c) Os = insert (landing ?c) Os"
    by (rule add_py_grid [OF gl O])
  show ?thesis
    unfolding examine_def examined_def by (simp add: 1 2 3 4 5 6 7 8 9 Let_def)
qed

section \<open>The whole search\<close>

lemma landing_cycle:
  assumes b: "board c"
  shows "detect_cycle (landing c) = Some (Inr (0, cycle_length next_pattern c))"
    and "step_times (cycle_length next_pattern c) (landing c) = Inr (landing c)"
proof -
  let ?f = "next_pattern"
  let ?m = "transient_length ?f c"
  let ?l = "cycle_length ?f c"
  let ?x = "landing c"
  from board_recurs [OF b] obtain t0 k0 where r0: "recurs ?f c t0 k0" by blast
  have r: "recurs ?f c ?m ?l" by (rule transient_recurs [OF r0])
  have bx: "board ?x" unfolding landing_def using b by (rule board_funpow)
  have sh: "(?f ^^ k) ?x = (?f ^^ (?m + k)) c" for k
    by (simp add: landing_def funpow_funpow add.commute)
  have lpos: "0 < ?l" using r by (simp add: recurs_def)
  have "(?f ^^ (0 + ?l)) ?x = (?f ^^ (?m + ?l)) c"
    unfolding sh by simp
  also have "\<dots> = (?f ^^ ?m) c" using r by (simp add: recurs_def)
  also have "\<dots> = (?f ^^ 0) ?x" by (simp add: landing_def)
  finally have rx: "recurs ?f ?x 0 ?l"
    using lpos unfolding recurs_def by blast
  have m0: "transient_length ?f ?x = 0"
    using recurs_after_transient [OF rx] by simp
  have le1: "cycle_length ?f ?x \<le> ?l" by (rule cycle_length_le [OF rx])
  have "recurs ?f ?x (transient_length ?f ?x) (cycle_length ?f ?x)"
    by (rule transient_recurs [OF rx])
  then have "0 < cycle_length ?f ?x" "(?f ^^ (0 + cycle_length ?f ?x)) ?x = (?f ^^ 0) ?x"
    unfolding m0 recurs_def by blast+
  then have "recurs ?f c ?m (cycle_length ?f ?x)"
    unfolding sh recurs_def by simp
  then have le2: "?l \<le> cycle_length ?f ?x" by (rule cycle_length_le)
  show "detect_cycle ?x = Some (Inr (0, ?l))"
    using detect_cycle_board [OF bx] m0 le1 le2 by simp
  show "step_times ?l ?x = Inr ?x"
    using rx by (simp add: step_times_board [OF bx] recurs_def)
qed

lemma landing_on_cycle:
  assumes "board c" and "1 < cycle_length next_pattern c"
  shows "on_cycle (landing c)"
  unfolding on_cycle_def
  using landing_cycle [OF assms(1)] assms(2)
  by (intro exI [of _ "cycle_length next_pattern c"]) simp

lemma for_each_opt_rule:
  assumes "I st"
    and "\<And>x s. x \<in> set xs \<Longrightarrow> I s \<Longrightarrow> \<exists>s'. body x s = Some (Inr s') \<and> I s'"
  shows "\<exists>st'. for_each_opt body xs st = Some (Inr st') \<and> I st'"
  using assms
proof (induction xs arbitrary: st)
  case Nil
  then show ?case by simp
next
  case (Cons x xs)
  from Cons.prems(2) [of x st] Cons.prems(1) obtain s1 where
    s1: "body x st = Some (Inr s1)" "I s1" by auto
  have "\<exists>st'. for_each_opt body xs s1 = Some (Inr st') \<and> I st'"
    by (rule Cons.IH [OF s1(2)]) (simp add: Cons.prems(2))
  then show ?case by (simp add: s1)
qed

lemma pairs_in_range:
  assumes "subs \<in> set (combinations (List.product (py_range 3) (py_range n)) k)"
    and "ij \<in> set subs"
  shows "fst ij < 3 \<and> snd ij < nat n"
proof -
  have "ij \<in> set (List.product (py_range 3) (py_range n))"
    using combinations_subset [OF assms(1)] assms(2) by blast
  then show ?thesis by (auto simp: py_range_def)
qed

lemma examine_invariant:
  assumes subs: "subs \<in> set (combinations (List.product (py_range 3) (py_range n)) k)"
    and inv: "search_invariant st"
  shows "\<exists>st'. examine n subs st = Some (Inr st') \<and> search_invariant st'"
proof -
  obtain V Os where st: "st = (V, Os)" by (cases st)
  let ?c = "candidate (nat n) subs"
  have V: "\<And>y. y \<in> V \<Longrightarrow> grid y" and O: "\<And>y. y \<in> Os \<Longrightarrow> grid y"
    using inv by (simp_all add: st search_invariant_def)
  have b: "board ?c" by (rule candidate_board)
  have gl: "grid (landing ?c)"
    using board_funpow [OF b] by (simp add: landing_def board_def)
  have oc: "1 < cycle_length next_pattern ?c \<Longrightarrow> on_cycle (landing ?c)"
    by (rule landing_on_cycle [OF b])
  have e: "examine n subs (V, Os) = Some (Inr (examined n subs (V, Os)))"
    by (rule examine_candidate) (simp_all add: pairs_in_range [OF subs] V O)
  show ?thesis
    unfolding st e
    using inv b gl oc by (auto simp: st search_invariant_def board_def examined_def Let_def)
qed

lemma search_result:
  "\<exists>V Os. for_each_opt (\<lambda>k. for_each_opt (examine n)
              (combinations (List.product (py_range 3) (py_range n)) k)) ks ({}, {})
            = Some (Inr (V, Os)) \<and> search_invariant (V, Os)"
proof -
  let ?pairs = "List.product (py_range 3) (py_range n)"
  have "\<exists>st'. for_each_opt (\<lambda>k. for_each_opt (examine n) (combinations ?pairs k)) ks ({}, {})
           = Some (Inr st') \<and> search_invariant st'"
  proof (rule for_each_opt_rule [where I = search_invariant])
    show "search_invariant ({}, {})" by (simp add: search_invariant_def)
  next
    fix k s
    assume "search_invariant s"
    then show "\<exists>s'. for_each_opt (examine n) (combinations ?pairs k) s = Some (Inr s')
                 \<and> search_invariant s'"
      by (rule for_each_opt_rule) (rule examine_invariant)
  qed
  then show ?thesis by auto
qed

text \<open>
  C8: for every \<open>n\<close> the search returns a set, and every pattern in it lies on a cycle of
  period at least 2: \<open>detect_cycle\<close> returns \<open>first_rep = 0\<close> on it, and that many steps
  (at least two) lead back to the pattern itself.
\<close>

theorem oscillators_on_cycles:
  "\<exists>S. find_oscillators n = Some (Inr S) \<and>
       (\<forall>x\<in>S. \<exists>p\<ge>2. detect_cycle x = Some (Inr (0, p)) \<and> step_times p x = Inr x)"
proof -
  obtain V Os where
    "for_each_opt (\<lambda>k. for_each_opt (examine n)
        (combinations (List.product (py_range 3) (py_range n)) k))
        (py_range (int (length (List.product (py_range 3) (py_range n))) + 1)) ({}, {})
      = Some (Inr (V, Os))" and "search_invariant (V, Os)"
    using search_result by blast
  then show ?thesis
    by (auto simp: find_oscillators_def Let_def search_invariant_def on_cycle_def)
qed

section \<open>Boards of height 3, column by column\<close>

lemma binary_cell:
  assumes "grid p" "binary (config p)" "i < height p" "j < width p"
  shows "config p ! i ! j = Some 0 \<or> config p ! i ! j = Some 1"
proof -
  have "config p ! i \<in> set (config p)" using assms by (simp add: grid_def)
  moreover have "config p ! i ! j \<in> set (config p ! i)"
    using assms grid_row_length [OF assms(1,3)] by simp
  ultimately show ?thesis using assms(2) by (auto simp: binary_def)
qed

lemma binary_integer_cells: "binary cfg \<Longrightarrow> integer_cells cfg"
  by (auto simp: binary_def integer_cells_def)

lemma cell_at_binary:
  assumes "grid p" "binary (config p)" "0 < width p"
  shows "cell_at p a b =
           (if config p ! nat (a mod int (height p)) ! nat (b mod int (width p)) = Some 1 then 1 else 0)"
proof -
  have "nat (a mod int (height p)) < height p" "nat (b mod int (width p)) < width p"
    using assms grid_height_pos [OF assms(1)] by (simp_all add: nat_less_iff)
  from binary_cell [OF assms(1,2) this] show ?thesis
    by (auto simp: cell_at_def)
qed

lemma rows_of_three:
  assumes "height p = 3" "i < 3"
  shows "cell_at p (int i + 1) b + cell_at p (int i) b + cell_at p (int i - 1) b
           = cell_at p 0 b + cell_at p 1 b + cell_at p 2 b"
proof -
  from assms(2) consider "i = 0" | "i = 1" | "i = 2" by linarith
  then show ?thesis
    by cases (simp_all add: cell_at_def assms(1))
qed

lemma neighbour_count_three:
  assumes "height p = 3" "i < 3"
  shows "neighbour_count p i j =
           (cell_at p 0 (int j - 1) + cell_at p 1 (int j - 1) + cell_at p 2 (int j - 1)) +
           (cell_at p 0 (int j) + cell_at p 1 (int j) + cell_at p 2 (int j)) +
           (cell_at p 0 (int j + 1) + cell_at p 1 (int j + 1) + cell_at p 2 (int j + 1)) -
           cell_at p (int i) (int j)"
proof -
  note r = rows_of_three [OF assms]
  have "neighbour_count p i j =
      (cell_at p (int i + 1) (int j - 1) + cell_at p (int i) (int j - 1) + cell_at p (int i - 1) (int j - 1)) +
      (cell_at p (int i + 1) (int j) + cell_at p (int i) (int j) + cell_at p (int i - 1) (int j)) +
      (cell_at p (int i + 1) (int j + 1) + cell_at p (int i) (int j + 1) + cell_at p (int i - 1) (int j + 1)) -
      cell_at p (int i) (int j)"
    unfolding neighbour_count_cell_at by simp
  then show ?thesis unfolding r .
qed

lemma column_sum_col:
  assumes "grid p" "binary (config p)" "height p = 3" "0 < width p"
  shows "cell_at p 0 b + cell_at p 1 b + cell_at p 2 b = int (col p (nat (b mod int (width p))))"
  unfolding cell_at_binary [OF assms(1,2,4)] col_def
  by (simp add: assms(3))

lemma nat_mod_pred:
  assumes "j < N"
  shows "nat ((int j - 1) mod int N) = (j + N - 1) mod N"
proof -
  have "(int j - 1) mod int N = (int j - 1 + int N) mod int N" by simp
  also have "\<dots> = int (j + N - 1) mod int N"
    using assms by (simp add: of_nat_diff algebra_simps)
  also have "\<dots> = int ((j + N - 1) mod N)" by (simp add: zmod_int)
  finally show ?thesis by simp
qed

lemma nat_mod_succ: "nat ((int j + 1) mod int N) = (j + 1) mod N"
proof -
  have "(int j + 1) mod int N = int ((j + 1) mod N)" by (simp add: zmod_int add.commute)
  then show ?thesis by simp
qed

lemma nat_mod_self: "j < N \<Longrightarrow> nat (int j mod int N) = j"
  by (simp add: nat_mod_distrib)

lemma neighbour_count_total:
  assumes "grid p" "binary (config p)" "height p = 3" "i < 3" "j < width p"
  shows "neighbour_count p i j = int (total p j) - (if config p ! i ! j = Some 1 then 1 else 0)"
proof -
  have W: "0 < width p" using assms(5) by simp
  have c: "cell_at p (int i) (int j) = (if config p ! i ! j = Some 1 then 1 else 0)"
    unfolding cell_at_binary [OF assms(1,2) W]
    using assms by (simp add: nat_mod_self)
  show ?thesis
    unfolding neighbour_count_three [OF assms(3,4)] column_sum_col [OF assms(1,2,3) W] c
      nat_mod_pred [OF assms(5)] nat_mod_succ nat_mod_self [OF assms(5)] total_def
    by simp
qed

lemma alive_next_total:
  assumes "grid p" "binary (config p)" "height p = 3" "i < 3" "j < width p"
  shows "alive_next p i j \<longleftrightarrow> total p j = 3 \<or> (total p j = 4 \<and> config p ! i ! j = Some 1)"
  unfolding alive_next_def neighbour_count_total [OF assms]
  by auto

section \<open>The column counts of a board of height 3\<close>

lemma length_sums3: "length (sums3 p cs f) = length cs"
  by (induction p cs f rule: sums3.induct) simp_all

lemma sums3_nth:
  "j < length cs \<Longrightarrow>
   sums3 p cs f ! j =
     (if j = 0 then p else cs ! (j - 1)) + cs ! j + (if Suc j < length cs then cs ! Suc j else f)"
proof (induction p cs f arbitrary: j rule: sums3.induct)
  case (1 prev first)
  then show ?case by simp
next
  case (2 prev x first)
  then show ?case by simp
next
  case (3 prev x y rest first)
  show ?case
  proof (cases j)
    case 0
    then show ?thesis by simp
  next
    case (Suc j')
    with "3.prems" have "j' < length (y # rest)" by simp
    from "3.IH" [OF this] show ?thesis
      by (simp add: Suc nth_Cons')
  qed
qed

lemma length_totals: "length (totals cs) = length cs"
  by (cases cs) (simp_all add: totals_def length_sums3)

lemma totals_nth:
  assumes "j < length cs"
  shows "totals cs ! j =
           cs ! ((j + length cs - 1) mod length cs) + cs ! j + cs ! ((j + 1) mod length cs)"
proof -
  from assms obtain x xs where cs: "cs = x # xs" by (cases cs) auto
  have t: "totals cs = sums3 (last cs) cs (cs ! 0)"
    by (simp add: totals_def cs)
  have a: "(if j = 0 then last cs else cs ! (j - 1)) = cs ! ((j + length cs - 1) mod length cs)"
  proof (cases "j = 0")
    case True
    then show ?thesis using assms by (simp add: last_conv_nth)
  next
    case False
    then have "j + length cs - 1 = (j - 1) + length cs" by simp
    then have "(j + length cs - 1) mod length cs = (j - 1) mod length cs"
      by (simp only: mod_add_self2)
    also have "\<dots> = j - 1" using assms by simp
    finally show ?thesis using False by simp
  qed
  have b: "(if Suc j < length cs then cs ! Suc j else cs ! 0) = cs ! ((j + 1) mod length cs)"
  proof (cases "Suc j < length cs")
    case True
    then show ?thesis by simp
  next
    case False
    then have "Suc j = length cs" using assms by simp
    then show ?thesis by (metis False Suc_eq_plus1 mod_self)
  qed
  show ?thesis
    unfolding t sums3_nth [OF assms] a b ..
qed

lemma count_step_nth:
  assumes "j < length cs"
  shows "count_step cs ! j =
           (if totals cs ! j = 3 then 3 else if totals cs ! j = 4 then cs ! j else 0)"
  using assms by (simp add: count_step_def length_totals)

lemma length_count_step: "length (count_step cs) = length cs"
  by (simp add: count_step_def length_totals)

lemma length_counts: "length (counts p) = width p"
  by (simp add: counts_def)

lemma counts_nth: "j < width p \<Longrightarrow> counts p ! j = col p j"
  by (simp add: counts_def)

lemma totals_counts:
  assumes "j < width p"
  shows "totals (counts p) ! j = total p j"
proof -
  have "(j + width p - 1) mod width p < width p" "(j + 1) mod width p < width p"
    using assms by simp_all
  then show ?thesis
    using assms by (simp add: totals_nth length_counts counts_nth total_def)
qed

lemma col_next:
  assumes "grid p" "binary (config p)" "height p = 3" "j < width p"
  shows "col (next_pattern p) j =
           (if total p j = 3 then 3 else if total p j = 4 then col p j else 0)"
proof -
  have c: "config (next_pattern p) ! i ! j =
        (if total p j = 3 \<or> (total p j = 4 \<and> config p ! i ! j = Some 1) then Some 1 else Some 0)"
    if "i < 3" for i
    using that assms by (simp add: next_pattern_def next_config_nth alive_next_total)
  show ?thesis
    unfolding col_def by (simp add: c)
qed

lemma counts_next:
  assumes "grid p" "binary (config p)" "height p = 3"
  shows "counts (next_pattern p) = count_step (counts p)"
proof (rule nth_equalityI)
  show "length (counts (next_pattern p)) = length (count_step (counts p))"
    by (simp add: length_counts length_count_step next_pattern_def)
next
  fix j
  assume "j < length (counts (next_pattern p))"
  then have j: "j < width p" by (simp add: length_counts next_pattern_def)
  then have "count_step (counts p) ! j =
      (if total p j = 3 then 3 else if total p j = 4 then col p j else 0)"
    by (simp add: count_step_nth totals_counts length_counts counts_nth)
  moreover have "counts (next_pattern p) ! j = col (next_pattern p) j"
    using j by (simp add: counts_nth next_pattern_def)
  ultimately show "counts (next_pattern p) ! j = count_step (counts p) ! j"
    using col_next [OF assms j] by simp
qed

lemma col_split:
  "col p j = (if config p ! 0 ! j = Some 1 then 1 else 0) +
             (if config p ! 1 ! j = Some 1 then 1 else 0) +
             (if config p ! 2 ! j = Some 1 then 1 else 0)"
  by (simp add: col_def)

lemma indicator_cases:
  fixes a b c :: nat
  assumes "a \<le> 1" "b \<le> 1" "c \<le> 1"
  shows "a + b + c = 3 \<Longrightarrow> a = 1 \<and> b = 1 \<and> c = 1"
    and "a + b + c = 0 \<Longrightarrow> a = 0 \<and> b = 0 \<and> c = 0"
  using assms by arith+

lemma col_full:
  assumes "col p j = 3" "i < 3"
  shows "config p ! i ! j = Some 1"
proof -
  let ?a = "\<lambda>i. if config p ! i ! j = Some 1 then 1 else 0 :: nat"
  have "?a 0 + ?a 1 + ?a 2 = 3" using assms(1) unfolding col_split .
  moreover have "?a 0 \<le> 1" "?a 1 \<le> 1" "?a 2 \<le> 1" by simp_all
  ultimately have e: "?a 0 = 1 \<and> ?a 1 = 1 \<and> ?a 2 = 1"
    by (rule_tac indicator_cases(1))
  from assms(2) consider "i = 0" | "i = 1" | "i = 2" by linarith
  then have "?a i = 1" using e by cases simp_all
  then show ?thesis by (simp split: if_splits)
qed

lemma col_empty:
  assumes "col p j = 0" "i < 3"
  shows "config p ! i ! j \<noteq> Some 1"
proof -
  let ?a = "\<lambda>i. if config p ! i ! j = Some 1 then 1 else 0 :: nat"
  have "?a 0 + ?a 1 + ?a 2 = 0" using assms(1) unfolding col_split .
  moreover have "?a 0 \<le> 1" "?a 1 \<le> 1" "?a 2 \<le> 1" by simp_all
  ultimately have e: "?a 0 = 0 \<and> ?a 1 = 0 \<and> ?a 2 = 0"
    by (rule_tac indicator_cases(2))
  from assms(2) consider "i = 0" | "i = 1" | "i = 2" by linarith
  then have "?a i = 0" using e by cases simp_all
  then show ?thesis by (simp split: if_splits)
qed

lemma fixed_counts_fixed_board:
  assumes g: "grid p" and b: "binary (config p)" and h: "height p = 3"
    and f: "count_step (counts p) = counts p"
  shows "next_pattern p = p"
proof (rule grid_eqI)
  show "grid (next_pattern p)" by (rule grid_next_pattern [OF g])
  show "grid p" by (rule g)
  show "height (next_pattern p) = height p" "width (next_pattern p) = width p"
    by (simp_all add: next_pattern_def)
  fix i j
  assume "i < height (next_pattern p)" "j < width (next_pattern p)"
  then have i: "i < 3" and j: "j < width p" by (simp_all add: next_pattern_def h)
  have ih: "i < height p" using i h by simp
  have "col (next_pattern p) j = col p j"
  proof -
    have "counts (next_pattern p) ! j = counts p ! j"
      using counts_next [OF g b h] f by simp
    then show ?thesis
      using j by (simp add: counts_nth next_pattern_def)
  qed
  then have e: "(if total p j = 3 then 3 else if total p j = 4 then col p j else 0) = col p j"
    using col_next [OF g b h j] by simp
  have n: "config (next_pattern p) ! i ! j =
        (if total p j = 3 \<or> (total p j = 4 \<and> config p ! i ! j = Some 1) then Some 1 else Some 0)"
    using i j g b h by (simp add: next_pattern_def next_config_nth alive_next_total)
  from binary_cell [OF g b ih j] show "config (next_pattern p) ! i ! j = config p ! i ! j"
    unfolding n using e col_full [of p j i] col_empty [of p j i] i
    by (auto split: if_splits)
qed

section \<open>Boards on which every trajectory ends in a fixed point\<close>

lemma three_rows_funpow:
  assumes "grid p" "binary (config p)" "height p = 3"
  shows "grid ((next_pattern ^^ t) p) \<and> binary (config ((next_pattern ^^ t) p)) \<and>
         height ((next_pattern ^^ t) p) = 3"
proof -
  have "grid ((next_pattern ^^ t) p)"
    using assms(1) by (induction t) (simp_all add: grid_next_pattern)
  moreover have "binary (config ((next_pattern ^^ t) p))"
    using assms(2) by (cases t) (simp_all add: binary_next)
  ultimately show ?thesis
    using assms(3) by (simp add: height_funpow)
qed

lemma counts_funpow:
  assumes "grid p" "binary (config p)" "height p = 3"
  shows "counts ((next_pattern ^^ t) p) = (count_step ^^ t) (counts p)"
proof (induction t)
  case 0
  show ?case by simp
next
  case (Suc t)
  from three_rows_funpow [OF assms, of t] have
    "counts (next_pattern ((next_pattern ^^ t) p)) = count_step (counts ((next_pattern ^^ t) p))"
    by (intro counts_next) simp_all
  then show ?case using Suc.IH by simp
qed

lemma settles_fixed:
  "settles k cs \<Longrightarrow> \<exists>t. count_step ((count_step ^^ t) cs) = (count_step ^^ t) cs"
proof (induction k arbitrary: cs)
  case 0
  then have "count_step ((count_step ^^ 0) cs) = (count_step ^^ 0) cs" by simp
  then show ?case by blast
next
  case (Suc k)
  show ?case
  proof (cases "count_step cs = cs")
    case True
    then have "count_step ((count_step ^^ 0) cs) = (count_step ^^ 0) cs" by simp
    then show ?thesis by blast
  next
    case False
    with Suc.prems have "settles k (count_step cs)" by simp
    from Suc.IH [OF this] obtain t where
      "count_step ((count_step ^^ t) (count_step cs)) = (count_step ^^ t) (count_step cs)" ..
    then have "count_step ((count_step ^^ Suc t) cs) = (count_step ^^ Suc t) cs"
      by (simp add: funpow_swap1)
    then show ?thesis by blast
  qed
qed

lemma settles_cycle_length:
  assumes g: "grid p" and b: "binary (config p)" and h: "height p = 3"
    and s: "settles k (counts p)"
  shows "cycle_length next_pattern p \<le> 1"
proof -
  from settles_fixed [OF s] obtain t where
    t: "count_step ((count_step ^^ t) (counts p)) = (count_step ^^ t) (counts p)" ..
  let ?q = "(next_pattern ^^ t) p"
  note q = three_rows_funpow [OF g b h, of t]
  have "count_step (counts ?q) = counts ?q"
    using t by (simp add: counts_funpow [OF g b h])
  then have "next_pattern ?q = ?q"
    using q by (intro fixed_counts_fixed_board) simp_all
  then have "recurs next_pattern p t 1"
    by (simp add: recurs_def)
  then show ?thesis by (rule cycle_length_le)
qed

lemma all_vectors_covers:
  assumes "all_vectors P n acc" "length cs = n" "set cs \<subseteq> {0, 1, 2, 3}"
  shows "P (rev cs @ acc)"
  using assms
proof (induction n arbitrary: acc cs)
  case 0
  then show ?case by simp
next
  case (Suc n)
  then obtain x xs where cs: "cs = x # xs" by (cases cs) auto
  with Suc.prems have xs: "length xs = n" "set xs \<subseteq> {0, 1, 2, 3}" and x: "x \<in> {0, 1, 2, 3}"
    by auto
  from Suc.prems(1) x have "all_vectors P n (x # acc)" by auto
  from Suc.IH [OF this xs] show ?case by (simp add: cs)
qed

lemma col_le: "col p j \<le> 3"
  by (simp add: col_split)

lemma counts_vector: "set (counts p) \<subseteq> {0, 1, 2, 3}"
proof
  fix x
  assume "x \<in> set (counts p)"
  then obtain j where "x = col p j" by (auto simp: counts_def)
  then have "x \<le> 3" by (simp add: col_le)
  then show "x \<in> {0, 1, 2, 3}" by auto
qed

lemma all_settle_cycle_length:
  assumes a: "all_vectors (\<lambda>cs. settles k (rev cs)) N []"
    and g: "grid p" and b: "binary (config p)" and h: "height p = 3" and w: "width p = N"
  shows "cycle_length next_pattern p \<le> 1"
proof -
  have "settles k (rev (rev (counts p) @ []))"
    by (rule all_vectors_covers [OF a]) (use counts_vector [of p] in \<open>simp_all add: length_counts w\<close>)
  then have "settles k (counts p)" by simp
  then show ?thesis by (rule settles_cycle_length [OF g b h])
qed

lemma candidate_three:
  "grid (candidate N subs)" "height (candidate N subs) = 3" "width (candidate N subs) = N"
  using candidate_board [of N subs] by (simp_all add: board_def candidate_def)

lemma examine_no_oscillator:
  assumes c: "\<And>subs. cycle_length next_pattern (candidate (nat n) subs) \<le> 1"
    and subs: "subs \<in> set (combinations (List.product (py_range 3) (py_range n)) k)"
    and inv: "no_oscillator st"
  shows "\<exists>st'. examine n subs st = Some (Inr st') \<and> no_oscillator st'"
proof -
  obtain V Os where st: "st = (V, Os)" by (cases st)
  have V: "\<And>y. y \<in> V \<Longrightarrow> grid y" and O: "Os = {}"
    using inv by (simp_all add: st no_oscillator_def)
  have e: "examine n subs (V, Os) = Some (Inr (examined n subs (V, Os)))"
    by (rule examine_candidate) (simp_all add: pairs_in_range [OF subs] V O)
  have "\<not> 1 < cycle_length next_pattern (candidate (nat n) subs)"
    using c [of subs] by simp
  then show ?thesis
    unfolding st e using V O candidate_three(1) [of "nat n" subs]
    by (auto simp: examined_def Let_def no_oscillator_def)
qed

lemma find_oscillators_empty:
  assumes c: "\<And>subs. cycle_length next_pattern (candidate (nat n) subs) \<le> 1"
  shows "find_oscillators n = Some (Inr {})"
proof -
  let ?pairs = "List.product (py_range 3) (py_range n)"
  have "\<exists>st'. for_each_opt (\<lambda>k. for_each_opt (examine n) (combinations ?pairs k))
            (py_range (int (length ?pairs) + 1)) ({}, {}) = Some (Inr st') \<and> no_oscillator st'"
  proof (rule for_each_opt_rule [where I = no_oscillator])
    show "no_oscillator ({}, {})" by (simp add: no_oscillator_def)
  next
    fix k s
    assume "no_oscillator s"
    then show "\<exists>s'. for_each_opt (examine n) (combinations ?pairs k) s = Some (Inr s')
                 \<and> no_oscillator s'"
      by (rule for_each_opt_rule) (rule examine_no_oscillator [OF c])
  qed
  then show ?thesis
    by (auto simp: find_oscillators_def Let_def no_oscillator_def)
qed

lemma all_settle_empty:
  assumes "all_vectors (\<lambda>cs. settles k (rev cs)) (nat n) []"
  shows "find_oscillators n = Some (Inr {})"
proof (rule find_oscillators_empty)
  fix subs
  show "cycle_length next_pattern (candidate (nat n) subs) \<le> 1"
    by (rule all_settle_cycle_length [OF assms candidate_three(1) candidate_binary
          candidate_three(2,3)])
qed

lemma settle_1: "all_vectors (\<lambda>cs. settles 2 (rev cs)) (nat 1) []"
  by code_simp

lemma settle_2: "all_vectors (\<lambda>cs. settles 2 (rev cs)) (nat 2) []"
  by code_simp

lemma settle_3: "all_vectors (\<lambda>cs. settles 2 (rev cs)) (nat 3) []"
  by code_simp

lemma settle_5: "all_vectors (\<lambda>cs. settles 7 (rev cs)) (nat 5) []"
  by code_simp

lemma settle_6: "all_vectors (\<lambda>cs. settles 9 (rev cs)) (nat 6) []"
  by code_simp

text \<open>
  C7: on the boards of width 1, 2, 3, 5 and 6 the search returns the empty set.
\<close>

theorem no_oscillators:
  "find_oscillators 1 = Some (Inr {}) \<and> find_oscillators 2 = Some (Inr {}) \<and>
   find_oscillators 3 = Some (Inr {}) \<and> find_oscillators 5 = Some (Inr {}) \<and>
   find_oscillators 6 = Some (Inr {})"
proof -
  have "find_oscillators 1 = Some (Inr {})"
    by (rule all_settle_empty [where k = 2]) (rule settle_1)
  moreover have "find_oscillators 2 = Some (Inr {})"
    by (rule all_settle_empty [where k = 2]) (rule settle_2)
  moreover have "find_oscillators 3 = Some (Inr {})"
    by (rule all_settle_empty [where k = 2]) (rule settle_3)
  moreover have "find_oscillators 5 = Some (Inr {})"
    by (rule all_settle_empty [where k = 7]) (rule settle_5)
  moreover have "find_oscillators 6 = Some (Inr {})"
    by (rule all_settle_empty [where k = 9]) (rule settle_6)
  ultimately show ?thesis by simp
qed

section \<open>The three symmetric images of a board that is not square\<close>

lemma rectangle_eqI:
  assumes "length a = H" "length b = H"
    and "\<And>i. i < H \<Longrightarrow> length (a ! i) = W" "\<And>i. i < H \<Longrightarrow> length (b ! i) = W"
    and "\<And>i j. i < H \<Longrightarrow> j < W \<Longrightarrow> a ! i ! j = b ! i ! j"
  shows "a = b"
proof (rule nth_equalityI)
  show "length a = length b" using assms(1,2) by simp
next
  fix i
  assume "i < length a"
  then have i: "i < H" using assms(1) by simp
  show "a ! i = b ! i"
  proof (rule nth_equalityI)
    show "length (a ! i) = length (b ! i)" using assms(3,4) i by simp
  next
    fix j
    assume "j < length (a ! i)"
    then have "j < W" using assms(3) i by simp
    then show "a ! i ! j = b ! i ! j" using assms(5) i by simp
  qed
qed

lemma remap_horizontal_flip:
  assumes "grid p"
  shows "remap (config p) (horizontal_flip (height p) (width p)) = map rev (config p)"
proof (rule rectangle_eqI [where H = "height p" and W = "width p"])
  show "length (remap (config p) (horizontal_flip (height p) (width p))) = height p"
    by (simp add: horizontal_flip_def length_remap_table)
  show "length (map rev (config p)) = height p"
    using assms by (simp add: grid_def)
  fix i
  assume i: "i < height p"
  then have il: "i < length (config p)" using assms by (simp add: grid_def)
  show "length (remap (config p) (horizontal_flip (height p) (width p)) ! i) = width p"
    using i by (simp add: horizontal_flip_def length_remap_table_row)
  show "length (map rev (config p) ! i) = width p"
    using il grid_row_length [OF assms i] by simp
  fix j
  assume j: "j < width p"
  show "remap (config p) (horizontal_flip (height p) (width p)) ! i ! j = map rev (config p) ! i ! j"
    using i j il grid_row_length [OF assms i]
    by (simp add: horizontal_flip_def remap_table_nth rev_nth)
qed

lemma remap_vertical_flip:
  assumes "grid p"
  shows "remap (config p) (vertical_flip (height p) (width p)) = rev (config p)"
proof (rule rectangle_eqI [where H = "height p" and W = "width p"])
  have l: "length (config p) = height p" using assms by (simp add: grid_def)
  show "length (remap (config p) (vertical_flip (height p) (width p))) = height p"
    by (simp add: vertical_flip_def length_remap_table)
  show "length (rev (config p)) = height p"
    using l by simp
  fix i
  assume i: "i < height p"
  then have i': "height p - Suc i < height p" by simp
  show "length (remap (config p) (vertical_flip (height p) (width p)) ! i) = width p"
    using i by (simp add: vertical_flip_def length_remap_table_row)
  show "length (rev (config p) ! i) = width p"
    using i l grid_row_length [OF assms i'] by (simp add: rev_nth)
  fix j
  assume j: "j < width p"
  show "remap (config p) (vertical_flip (height p) (width p)) ! i ! j = rev (config p) ! i ! j"
    using i j l by (simp add: vertical_flip_def remap_table_nth rev_nth)
qed

lemma remap_rotation_180:
  assumes "grid p"
  shows "remap (config p) (rotation_180 (height p) (width p)) = map rev (rev (config p))"
proof (rule rectangle_eqI [where H = "height p" and W = "width p"])
  have l: "length (config p) = height p" using assms by (simp add: grid_def)
  show "length (remap (config p) (rotation_180 (height p) (width p))) = height p"
    by (simp add: rotation_180_def length_remap_table)
  show "length (map rev (rev (config p))) = height p"
    using l by simp
  fix i
  assume i: "i < height p"
  then have i': "height p - Suc i < height p" by simp
  show "length (remap (config p) (rotation_180 (height p) (width p)) ! i) = width p"
    using i by (simp add: rotation_180_def length_remap_table_row)
  show "length (map rev (rev (config p)) ! i) = width p"
    using i l grid_row_length [OF assms i'] by (simp add: rev_nth)
  fix j
  assume j: "j < width p"
  show "remap (config p) (rotation_180 (height p) (width p)) ! i ! j
          = map rev (rev (config p)) ! i ! j"
    using i j l grid_row_length [OF assms i']
    by (simp add: rotation_180_def remap_table_nth rev_nth)
qed

lemma images_remap:
  assumes "grid p" "height p \<noteq> width p"
  shows "map (remap_pattern p) (rectangle_symmetries (int (height p)) (int (width p)) True)
           = images p"
  using assms(2)
  by (simp add: rectangle_symmetries_tables images_def remap_pattern_def
      remap_horizontal_flip [OF assms(1)] remap_vertical_flip [OF assms(1)]
      remap_rotation_180 [OF assms(1)])

lemma images_of_images:
  assumes "q \<in> set (images p)" "r \<in> set (images q)"
  shows "r = p \<or> r \<in> set (images p)"
  using assms by (auto simp: images_def rev_map)

lemma grid_images:
  assumes "grid p" "q \<in> set (images p)"
  shows "grid q"
  using assms by (auto simp: images_def grid_def)

lemma binary_images:
  assumes "binary (config p)" "q \<in> set (images p)"
  shows "binary (config q)"
  using assms by (fastforce simp: images_def binary_def)

lemma shape_images:
  assumes "q \<in> set (images p)"
  shows "height q = height p \<and> width q = width p"
  using assms by (auto simp: images_def)

section \<open>The search as a fold over the subsets\<close>

lemma for_each_opt_append:
  "for_each_opt body (xs @ ys) st =
     (case for_each_opt body xs st of
        None \<Rightarrow> None
      | Some (Inl e) \<Rightarrow> Some (Inl e)
      | Some (Inr st') \<Rightarrow> for_each_opt body ys st')"
  by (induction xs arbitrary: st) (auto split: option.splits sum.splits)

lemma for_each_opt_concat:
  "for_each_opt (\<lambda>k. for_each_opt body (g k)) ks st = for_each_opt body (concat (map g ks)) st"
  by (induction ks arbitrary: st) (auto simp: for_each_opt_append split: option.splits sum.splits)

lemma run_snoc: "run n (P @ [s]) st = examined n s (run n P st)"
  by (simp add: run_def)

lemma run_append: "run n (P @ Q) st = run n Q (run n P st)"
  by (simp add: run_def)

lemma run_Cons: "run n (s # Q) st = run n Q (examined n s st)"
  by (simp add: run_def)

lemma candidate_board3: "board3 N (candidate N subs)"
  by (simp add: board3_def candidate_three candidate_binary)

lemma board3_board: "board3 N p \<Longrightarrow> board p"
  by (simp add: board3_def board_def binary_integer_cells)

lemma landing_board3:
  assumes "board3 N p"
  shows "board3 N (landing p)"
  using assms three_rows_funpow [of p "transient_length next_pattern p"]
  by (simp add: board3_def landing_def width_funpow)

lemma examined_board3:
  assumes "\<And>y. y \<in> fst st \<union> snd st \<Longrightarrow> board3 (nat n) y"
    and "y \<in> fst (examined n s st) \<union> snd (examined n s st)"
  shows "board3 (nat n) y"
  using assms candidate_board3 [of "nat n" s] landing_board3 [OF candidate_board3, of "nat n" s]
  by (auto simp: examined_def Let_def split: if_splits)

lemma run_board3:
  assumes "\<And>y. y \<in> fst st \<union> snd st \<Longrightarrow> board3 (nat n) y"
    and "y \<in> fst (run n P st) \<union> snd (run n P st)"
  shows "board3 (nat n) y"
  using assms(2)
proof (induction P arbitrary: y rule: rev_induct)
  case Nil
  then show ?case using assms(1) by (simp add: run_def)
next
  case (snoc s P)
  show ?case
    by (rule examined_board3 [where st = "run n P st" and s = s])
       (use snoc in \<open>auto simp: run_snoc\<close>)
qed

lemma for_each_opt_run:
  assumes "\<And>s ij. s \<in> set ss \<Longrightarrow> ij \<in> set s \<Longrightarrow> fst ij < 3 \<and> snd ij < nat n"
    and "\<And>y. y \<in> fst st \<union> snd st \<Longrightarrow> board3 (nat n) y"
  shows "for_each_opt (examine n) ss st = Some (Inr (run n ss st))"
  using assms
proof (induction ss arbitrary: st)
  case Nil
  show ?case by (simp add: run_def)
next
  case (Cons s ss)
  obtain V Os where st: "st = (V, Os)" by (cases st)
  have e: "examine n s (V, Os) = Some (Inr (examined n s (V, Os)))"
    by (rule examine_candidate) (use Cons.prems in \<open>auto simp: st board3_def\<close>)
  have "for_each_opt (examine n) ss (examined n s st) = Some (Inr (run n ss (examined n s st)))"
  proof (rule Cons.IH)
    fix y
    assume "y \<in> fst (examined n s st) \<union> snd (examined n s st)"
    then show "board3 (nat n) y"
      using examined_board3 [of st n y s] Cons.prems(2) by blast
  qed (use Cons.prems(1) in auto)
  then show ?case
    by (simp add: st e run_Cons)
qed

lemma all_subsets_in_range:
  assumes "s \<in> set (all_subsets n)" "ij \<in> set s"
  shows "fst ij < 3 \<and> snd ij < nat n"
proof -
  from assms(1) obtain k where "s \<in> set (combinations (List.product (py_range 3) (py_range n)) k)"
    by (auto simp: all_subsets_def Let_def)
  then show ?thesis using assms(2) by (rule pairs_in_range)
qed

lemma search_run:
  "find_oscillators n = Some (Inr (snd (run n (all_subsets n) ({}, {}))))"
proof -
  have "for_each_opt (examine n) (all_subsets n) ({}, {})
          = Some (Inr (run n (all_subsets n) ({}, {})))"
    by (rule for_each_opt_run) (use all_subsets_in_range in auto)
  then show ?thesis
    by (simp add: find_oscillators_def Let_def for_each_opt_concat all_subsets_def
        split: prod.split)
qed

section \<open>What the search has visited\<close>

lemma examined_images:
  assumes "0 \<le> n" "n \<noteq> 3"
  shows "examined n s st =
     (let c = candidate (nat n) s in
      if \<exists>q\<in>set (images c). q \<in> fst st then st
      else if 1 < cycle_length next_pattern c
      then (insert (landing c) (insert c (fst st)), insert (landing c) (snd st))
      else (insert c (fst st), snd st))"
proof -
  let ?c = "candidate (nat n) s"
  have hw: "height ?c = 3" "width ?c = nat n" by (simp_all add: candidate_def)
  have "height ?c \<noteq> width ?c" using assms by (simp add: hw)
  from images_remap [OF candidate_three(1) this]
  have "map (remap_pattern ?c) (rectangle_symmetries 3 n True) = images ?c"
    using assms(1) by (simp add: hw)
  then have "set (images ?c) = remap_pattern ?c ` set (rectangle_symmetries 3 n True)"
    by (metis set_map)
  then show ?thesis
    by (simp add: examined_def Let_def)
qed

lemma examined_mono:
  "fst st \<subseteq> fst (examined n s st)" "snd st \<subseteq> snd (examined n s st)"
  by (auto simp: examined_def Let_def)

lemma run_mono_fst: "fst (run n P st) \<subseteq> fst (run n (P @ Q) st)"
proof (induction Q rule: rev_induct)
  case Nil
  show ?case by simp
next
  case (snoc s Q)
  have "run n (P @ Q @ [s]) st = examined n s (run n (P @ Q) st)"
    using run_snoc [of n "P @ Q" s st] by simp
  then show ?case
    using snoc examined_mono(1) [of "run n (P @ Q) st" n s] by auto
qed

lemma run_mono_snd: "snd (run n P st) \<subseteq> snd (run n (P @ Q) st)"
proof (induction Q rule: rev_induct)
  case Nil
  show ?case by simp
next
  case (snoc s Q)
  have "run n (P @ Q @ [s]) st = examined n s (run n (P @ Q) st)"
    using run_snoc [of n "P @ Q" s st] by simp
  then show ?case
    using snoc examined_mono(2) [of "run n (P @ Q) st" n s] by auto
qed

lemmas run_mono = run_mono_fst run_mono_snd

lemma landing_cyclic:
  assumes "board c" "1 < cycle_length next_pattern c"
  shows "cyclic (landing c)"
proof -
  have b: "board (landing c)"
    unfolding landing_def using assms(1) by (rule board_funpow)
  from landing_cycle(1) [OF assms(1)] detect_cycle_board [OF b]
  have "transient_length next_pattern (landing c) = 0"
    "cycle_length next_pattern (landing c) = cycle_length next_pattern c"
    by simp_all
  then show ?thesis using assms(2) by (simp add: cyclic_def)
qed

lemma run_visited:
  assumes "y \<in> fst (run n P ({}, {}))"
  shows "y \<in> candidate (nat n) ` set P \<or> cyclic y"
  using assms
proof (induction P arbitrary: y rule: rev_induct)
  case Nil
  then show ?case by (simp add: run_def)
next
  case (snoc s P)
  let ?c = "candidate (nat n) s"
  from snoc.prems have "y \<in> fst (run n P ({}, {})) \<or> y = ?c \<or>
      (1 < cycle_length next_pattern ?c \<and> y = landing ?c)"
    by (auto simp: run_snoc examined_def Let_def split: if_splits)
  then show ?case
    using snoc.IH landing_cyclic [OF candidate_board, of "nat n" s] by auto
qed

lemma run_found:
  assumes "y \<in> snd (run n P ({}, {}))"
  shows "cyclic y \<and> y \<in> fst (run n P ({}, {}))"
  using assms
proof (induction P arbitrary: y rule: rev_induct)
  case Nil
  then show ?case by (simp add: run_def)
next
  case (snoc s P)
  let ?c = "candidate (nat n) s"
  from snoc.prems consider
      "y \<in> snd (run n P ({}, {}))"
    | "1 < cycle_length next_pattern ?c" "y = landing ?c"
        "run n (P @ [s]) ({}, {}) =
           (insert (landing ?c) (insert ?c (fst (run n P ({}, {})))),
            insert (landing ?c) (snd (run n P ({}, {}))))"
    by (auto simp: run_snoc examined_def Let_def split: if_splits)
  then show ?case
  proof cases
    case 1
    with snoc.IH have "cyclic y" "y \<in> fst (run n P ({}, {}))" by simp_all
    then show ?thesis using run_mono(1) [of n P "({}, {})" "[s]"] by auto
  next
    case 2
    then show ?thesis
      using landing_cyclic [OF candidate_board, of "nat n" s] by simp
  qed
qed

lemma run_seen:
  assumes "0 \<le> n" "n \<noteq> 3" "s \<in> set P"
  shows "candidate (nat n) s \<in> fst (run n P ({}, {})) \<or>
         (\<exists>q\<in>set (images (candidate (nat n) s)). q \<in> fst (run n P ({}, {})))"
  using assms(3)
proof (induction P rule: rev_induct)
  case Nil
  then show ?case by simp
next
  case (snoc s' P)
  let ?st = "run n P ({}, {})"
  show ?case
  proof (cases "s \<in> set P")
    case True
    then show ?thesis
      using snoc.IH run_mono(1) [of n P "({}, {})" "[s']"] by blast
  next
    case False
    with snoc.prems have s: "s = s'" by simp
    show ?thesis
      unfolding s run_snoc examined_images [OF assms(1,2)]
      by (auto simp: Let_def)
  qed
qed

lemma run_found_source:
  assumes "0 \<le> n" "n \<noteq> 3" "x \<in> snd (run n P ({}, {}))"
  shows "\<exists>P1 s P2. P = P1 @ s # P2 \<and> x = landing (candidate (nat n) s) \<and>
           1 < cycle_length next_pattern (candidate (nat n) s) \<and>
           (\<forall>q\<in>set (images (candidate (nat n) s)). q \<notin> fst (run n P1 ({}, {})))"
  using assms(3)
proof (induction P rule: rev_induct)
  case Nil
  then show ?case by (simp add: run_def)
next
  case (snoc s P)
  let ?c = "candidate (nat n) s"
  let ?st = "run n P ({}, {})"
  show ?case
  proof (cases "x \<in> snd ?st")
    case True
    from snoc.IH [OF this] obtain P1 s1 P2 where
      "P = P1 @ s1 # P2" "x = landing (candidate (nat n) s1)"
      "1 < cycle_length next_pattern (candidate (nat n) s1)"
      "\<forall>q\<in>set (images (candidate (nat n) s1)). q \<notin> fst (run n P1 ({}, {}))"
      by blast
    then have "P @ [s] = P1 @ s1 # (P2 @ [s])" by simp
    then show ?thesis
      using \<open>x = landing (candidate (nat n) s1)\<close>
        \<open>1 < cycle_length next_pattern (candidate (nat n) s1)\<close>
        \<open>\<forall>q\<in>set (images (candidate (nat n) s1)). q \<notin> fst (run n P1 ({}, {}))\<close>
      by blast
  next
    case False
    with snoc.prems have
      "\<not> (\<exists>q\<in>set (images ?c). q \<in> fst ?st)" "1 < cycle_length next_pattern ?c" "x = landing ?c"
      unfolding run_snoc examined_images [OF assms(1,2)]
      by (auto simp: Let_def split: if_splits)
    then have "P @ [s] = P @ s # [] \<and> x = landing ?c \<and> 1 < cycle_length next_pattern ?c \<and>
        (\<forall>q\<in>set (images ?c). q \<notin> fst ?st)"
      by simp
    then show ?thesis by blast
  qed
qed

lemma earlier_image_blocks:
  assumes n: "0 \<le> n" "n \<noteq> 3"
    and c: "\<not> cyclic (candidate (nat n) s)" "candidate (nat n) s \<notin> candidate (nat n) ` set P"
    and q: "q \<in> set (images (candidate (nat n) s))" "q \<in> candidate (nat n) ` set P"
  shows "\<exists>q'\<in>set (images (candidate (nat n) s)). q' \<in> fst (run n P ({}, {}))"
proof -
  let ?c = "candidate (nat n) s"
  let ?V = "fst (run n P ({}, {}))"
  from q(2) obtain s' where s': "s' \<in> set P" "q = candidate (nat n) s'" by blast
  from run_seen [OF n s'(1)] have "q \<in> ?V \<or> (\<exists>r\<in>set (images q). r \<in> ?V)"
    by (simp add: s'(2))
  then show ?thesis
  proof
    assume "q \<in> ?V"
    with q(1) show ?thesis by blast
  next
    assume "\<exists>r\<in>set (images q). r \<in> ?V"
    then obtain r where r: "r \<in> set (images q)" "r \<in> ?V" by blast
    from images_of_images [OF q(1) r(1)] show ?thesis
    proof
      assume "r = ?c"
      with r(2) run_visited [of ?c n P] c show ?thesis by simp
    next
      assume "r \<in> set (images ?c)"
      with r(2) show ?thesis by blast
    qed
  qed
qed

lemma processed_adds:
  assumes n: "0 \<le> n" "n \<noteq> 3"
    and "\<forall>q\<in>set (images (candidate (nat n) s)). q \<notin> fst (run n P1 ({}, {}))"
    and "1 < cycle_length next_pattern (candidate (nat n) s)"
  shows "landing (candidate (nat n) s) \<in> snd (run n (P1 @ s # P2) ({}, {}))"
proof -
  have "landing (candidate (nat n) s) \<in> snd (run n (P1 @ [s]) ({}, {}))"
    unfolding run_snoc examined_images [OF n] using assms(3,4) by (simp add: Let_def)
  then show ?thesis
    using run_mono(2) [of n "P1 @ [s]" "({}, {})" P2] by auto
qed

section \<open>The order in which the subsets are enumerated\<close>

lemma precedes_irrefl: "\<not> precedes a a"
  by (induction a) simp_all

lemma precedes_asym: "precedes a b \<Longrightarrow> \<not> precedes b a"
  by (induction a b rule: precedes.induct) (auto split: if_splits)

lemma length_combinations: "s \<in> set (combinations xs k) \<Longrightarrow> length s = k"
  by (induction xs k arbitrary: s rule: combinations.induct) auto

lemma filter_combination:
  assumes "s \<in> set (combinations xs k)" "distinct xs"
  shows "filter (\<lambda>x. x \<in> set s) xs = s"
  using assms
proof (induction xs k arbitrary: s rule: combinations.induct)
  case (1 xs)
  then show ?case by simp
next
  case (2 k)
  then show ?case by simp
next
  case (3 x xs k)
  from "3.prems"(2) have x: "x \<notin> set xs" and d: "distinct xs" by simp_all
  from "3.prems"(1) consider s' where "s = x # s'" "s' \<in> set (combinations xs k)"
    | "s \<in> set (combinations xs (Suc k))"
    by auto
  then show ?case
  proof cases
    case 1
    have "filter (\<lambda>y. y \<in> set (x # s')) xs = filter (\<lambda>y. y \<in> set s') xs"
      by (rule filter_cong) (use x in auto)
    then show ?thesis
      using "3.IH"(1) [OF 1(2) d] by (simp add: 1(1))
  next
    case 2
    have "x \<notin> set s" using combinations_subset [OF 2] x by blast
    then show ?thesis
      using "3.IH"(2) [OF 2 d] by simp
  qed
qed

lemma marks_Cons_in:
  assumes "x \<notin> set xs"
  shows "marks (x # xs) (x # a) = Some 1 # marks xs a"
proof -
  have "map (\<lambda>y. if y \<in> set (x # a) then Some 1 else Some (0::int)) xs
      = map (\<lambda>y. if y \<in> set a then Some 1 else Some 0) xs"
    by (rule map_cong) (use assms in auto)
  then show ?thesis by (simp add: marks_def)
qed

lemma marks_Cons_out: "x \<notin> set b \<Longrightarrow> marks (x # xs) b = Some 0 # marks xs b"
  by (simp add: marks_def)

lemma combinations_sorted:
  assumes "distinct xs"
  shows "sorted_wrt (\<lambda>a b. precedes (marks xs a) (marks xs b)) (combinations xs k)"
  using assms
proof (induction xs k rule: combinations.induct)
  case (1 xs)
  show ?case by simp
next
  case (2 k)
  show ?case by simp
next
  case (3 x xs k)
  from "3.prems" have x: "x \<notin> set xs" and d: "distinct xs" by simp_all
  let ?R = "\<lambda>a b. precedes (marks (x # xs) a) (marks (x # xs) b)"
  let ?Q = "\<lambda>a b. precedes (marks xs a) (marks xs b)"
  have out: "x \<notin> set b" if "b \<in> set (combinations xs j)" for b j
    using combinations_subset [OF that] x by blast
  have 1: "sorted_wrt ?R (map ((#) x) (combinations xs k))"
    unfolding sorted_wrt_map
    by (rule sorted_wrt_mono_rel [OF _ "3.IH"(1) [OF d]]) (simp add: marks_Cons_in [OF x])
  have 2: "sorted_wrt ?R (combinations xs (Suc k))"
    by (rule sorted_wrt_mono_rel [OF _ "3.IH"(2) [OF d]]) (simp add: marks_Cons_out out)
  have 3: "?R a b" if "a \<in> set (map ((#) x) (combinations xs k))" "b \<in> set (combinations xs (Suc k))"
    for a b
  proof -
    from that(1) obtain a' where a: "a = x # a'" by auto
    show ?thesis
      by (simp add: a marks_Cons_in [OF x] marks_Cons_out [OF out [OF that(2)]])
  qed
  show ?case
    using 1 2 3 by (simp add: sorted_wrt_append)
qed

lemma sorted_blocks:
  assumes "\<And>k. k < m \<Longrightarrow> sorted_wrt R (g k)"
    and "\<And>j k a b. j < k \<Longrightarrow> k < m \<Longrightarrow> a \<in> set (g j) \<Longrightarrow> b \<in> set (g k) \<Longrightarrow> R a b"
  shows "sorted_wrt R (concat (map g [0..<m]))"
  using assms
proof (induction m)
  case 0
  show ?case by simp
next
  case (Suc m)
  have "sorted_wrt R (concat (map g [0..<m]))"
    by (rule Suc.IH) (use Suc.prems in \<open>auto simp: less_Suc_eq\<close>)
  moreover have "sorted_wrt R (g m)" by (rule Suc.prems(1)) simp
  moreover have "R a b" if "a \<in> set (concat (map g [0..<m]))" "b \<in> set (g m)" for a b
  proof -
    from that(1) obtain j where "j < m" "a \<in> set (g j)" by auto
    then show ?thesis using Suc.prems(2) [of j m a b] that(2) by simp
  qed
  ultimately show ?case by (simp add: sorted_wrt_append)
qed

lemma distinct_pairs: "distinct (List.product (py_range 3) (py_range n))"
  by (simp add: py_range_def distinct_product)

lemma nat_int_succ: "nat (int m + 1) = m + 1"
  by simp

lemma all_subsets_sorted:
  "sorted_wrt (earlier (List.product (py_range 3) (py_range n))) (all_subsets n)"
proof -
  let ?pairs = "List.product (py_range 3) (py_range n)"
  have "sorted_wrt (earlier ?pairs) (concat (map (combinations ?pairs) [0..<length ?pairs + 1]))"
  proof (rule sorted_blocks)
    fix k
    show "sorted_wrt (earlier ?pairs) (combinations ?pairs k)"
      by (rule sorted_wrt_mono_rel [OF _ combinations_sorted [OF distinct_pairs]])
         (simp add: earlier_def length_combinations)
  next
    fix j k a b
    assume "j < k" "a \<in> set (combinations ?pairs j)" "b \<in> set (combinations ?pairs k)"
    then show "earlier ?pairs a b"
      by (simp add: earlier_def length_combinations)
  qed
  moreover have "nat (int (length ?pairs) + 1) = length ?pairs + 1"
    by (rule nat_int_succ)
  ultimately show ?thesis
    by (simp add: all_subsets_def Let_def py_range_def del: upt_Suc)
qed

lemma earlier_irrefl: "\<not> earlier xs a a"
  by (simp add: earlier_def precedes_irrefl)

lemma earlier_asym: "earlier xs a b \<Longrightarrow> \<not> earlier xs b a"
  by (auto simp: earlier_def dest: precedes_asym)

lemma sorted_split:
  assumes "sorted_wrt R (P1 @ s # P2)"
  shows "s' \<in> set P1 \<Longrightarrow> R s' s" and "s' \<in> set P2 \<Longrightarrow> R s s'"
  using assms by (auto simp: sorted_wrt_append)

lemma earlier_in_prefix:
  assumes L: "all_subsets n = P1 @ s # P2"
    and s': "s' \<in> set (all_subsets n)"
    and e: "earlier (List.product (py_range 3) (py_range n)) s' s"
  shows "s' \<in> set P1"
proof -
  note srt = all_subsets_sorted [of n, unfolded L]
  have "s' \<noteq> s" using e earlier_irrefl by blast
  moreover have "s' \<notin> set P2"
    using sorted_split(2) [OF srt, of s'] earlier_asym [OF e] by blast
  ultimately show ?thesis using s' by (simp add: L)
qed

lemma prefix_earlier:
  assumes L: "all_subsets n = P1 @ s # P2" and s': "s' \<in> set P1"
  shows "earlier (List.product (py_range 3) (py_range n)) s' s"
  using sorted_split(1) [OF all_subsets_sorted [of n, unfolded L] s'] .

section \<open>Boards and subsets\<close>

lemma concat_layout:
  "concat (layout N s) = marks (List.product [0..<3] [0..<N]) s"
  by (simp add: layout_def marks_def product_concat_map map_concat comp_def)

lemma live_marks: "length (filter (\<lambda>v. v = Some 1) (marks xs s)) = length (filter (\<lambda>x. x \<in> set s) xs)"
proof -
  have "filter (\<lambda>v. v = Some 1) (marks xs s)
      = map (\<lambda>x. if x \<in> set s then Some 1 else Some 0) (filter (\<lambda>x. x \<in> set s) xs)"
    unfolding marks_def filter_map by (rule arg_cong [where f = "map _"], rule filter_cong) auto
  then show ?thesis by simp
qed

lemma all_subsets_combination:
  assumes "s \<in> set (all_subsets n)"
  shows "\<exists>k. s \<in> set (combinations (List.product (py_range 3) (py_range n)) k)"
  using assms by (auto simp: all_subsets_def Let_def)

lemma live_cells_candidate:
  assumes "s \<in> set (all_subsets n)"
  shows "live_cells (config (candidate (nat n) s)) = length s"
proof -
  from all_subsets_combination [OF assms] obtain k where
    k: "s \<in> set (combinations (List.product (py_range 3) (py_range n)) k)" ..
  have "filter (\<lambda>x. x \<in> set s) (List.product (py_range 3) (py_range n)) = s"
    by (rule filter_combination [OF k distinct_pairs])
  then show ?thesis
    by (simp add: live_cells_def candidate_def concat_layout live_marks py_range_def)
qed

lemma before_candidates:
  assumes "s' \<in> set (all_subsets n)" "s \<in> set (all_subsets n)"
  shows "before (config (candidate (nat n) s')) (config (candidate (nat n) s))
           \<longleftrightarrow> earlier (List.product (py_range 3) (py_range n)) s' s"
  unfolding before_def earlier_def live_cells_candidate [OF assms(1)] live_cells_candidate [OF assms(2)]
  by (simp add: candidate_def concat_layout py_range_def)

lemma filter_in_combinations:
  "filter P xs \<in> set (combinations xs (length (filter P xs)))"
proof (induction xs)
  case Nil
  show ?case by simp
next
  case (Cons x xs)
  show ?case
  proof (cases "P x")
    case True
    then show ?thesis using Cons.IH by simp
  next
    case False
    show ?thesis
    proof (cases "length (filter P xs)")
      case 0
      then show ?thesis using False by simp
    next
      case (Suc k)
      then show ?thesis using False Cons.IH by simp
    qed
  qed
qed

lemma in_py_range_succ: "k \<le> m \<Longrightarrow> k \<in> set (py_range (int m + 1))"
  unfolding py_range_def nat_int_succ by auto

lemma every_board_is_candidate:
  assumes "board3 (nat n) p"
  shows "\<exists>s\<in>set (all_subsets n). candidate (nat n) s = p"
proof -
  let ?pairs = "List.product (py_range 3) (py_range n)"
  let ?P = "\<lambda>ij. config p ! fst ij ! snd ij = Some 1"
  let ?s = "filter ?P ?pairs"
  have g: "grid p" and b: "binary (config p)" and h: "height p = 3" and w: "width p = nat n"
    using assms by (simp_all add: board3_def)
  have "length ?s \<le> length ?pairs" by (rule length_filter_le)
  then have "length ?s \<in> set (py_range (int (length ?pairs) + 1))"
    by (rule in_py_range_succ)
  then have mem: "?s \<in> set (all_subsets n)"
    using filter_in_combinations [of ?P ?pairs]
    by (auto simp: all_subsets_def Let_def simp del: length_product set_filter)
  have "candidate (nat n) ?s = p"
  proof (rule grid_eqI)
    show "grid (candidate (nat n) ?s)" by (rule candidate_three(1))
    show "grid p" by (rule g)
    show "height (candidate (nat n) ?s) = height p" "width (candidate (nat n) ?s) = width p"
      by (simp_all add: candidate_def h w)
    fix i j
    assume "i < height (candidate (nat n) ?s)" "j < width (candidate (nat n) ?s)"
    then have i: "i < 3" and j: "j < nat n" by (simp_all add: candidate_def)
    have "(i, j) \<in> set ?s \<longleftrightarrow> config p ! i ! j = Some 1"
      using i j by (simp add: py_range_def)
    moreover have "config p ! i ! j = Some 0 \<or> config p ! i ! j = Some 1"
      by (rule binary_cell [OF g b]) (use i j h w in simp_all)
    ultimately show "config (candidate (nat n) ?s) ! i ! j = config p ! i ! j"
      using i j by (auto simp: candidate_def layout_def)
  qed
  with mem show ?thesis by blast
qed

lemma prefix_before:
  assumes L: "all_subsets n = P1 @ s # P2"
    and q: "q \<in> candidate (nat n) ` set P1"
  shows "before (config q) (config (candidate (nat n) s))"
proof -
  from q obtain s' where s': "s' \<in> set P1" "q = candidate (nat n) s'" by blast
  have "s' \<in> set (all_subsets n)" "s \<in> set (all_subsets n)"
    using s'(1) by (simp_all add: L)
  then show ?thesis
    unfolding s'(2) using prefix_earlier [OF L s'(1)] by (simp add: before_candidates)
qed

lemma before_prefix:
  assumes L: "all_subsets n = P1 @ s # P2"
    and q: "board3 (nat n) q" "before (config q) (config (candidate (nat n) s))"
  shows "q \<in> candidate (nat n) ` set P1"
proof -
  from every_board_is_candidate [OF q(1)] obtain s' where
    s': "s' \<in> set (all_subsets n)" "candidate (nat n) s' = q" by blast
  have "s \<in> set (all_subsets n)" by (simp add: L)
  with q(2) s' have "earlier (List.product (py_range 3) (py_range n)) s' s"
    using before_candidates [of s' n s] by simp
  from earlier_in_prefix [OF L s'(1) this] s'(2) show ?thesis by blast
qed

lemma before_irrefl: "\<not> before a a"
  by (simp add: before_def precedes_irrefl)

lemma candidate_not_in_prefix:
  assumes "all_subsets n = P1 @ s # P2"
  shows "candidate (nat n) s \<notin> candidate (nat n) ` set P1"
  using prefix_before [OF assms] before_irrefl by blast

section \<open>A quick step for boards of height 3\<close>

lemma three_rows:
  assumes "length cfg = 3"
  shows "cfg = [cfg ! 0, cfg ! 1, cfg ! 2]"
proof -
  from assms obtain a cfg1 where 1: "cfg = a # cfg1" "length cfg1 = 2"
    by (cases cfg) auto
  then obtain b cfg2 where 2: "cfg1 = b # cfg2" "length cfg2 = 1"
    by (cases cfg1) auto
  then obtain c where 3: "cfg2 = [c]"
    by (cases cfg2) auto
  show ?thesis by (simp add: 1 2 3)
qed

lemma column_counts_board:
  assumes "board3 N p"
  shows "column_counts (config p) = counts p"
proof -
  have g: "grid p" and h: "height p = 3" and w: "width p = N"
    using assms by (simp_all add: board3_def)
  have l: "length (config p) = 3" using g h by (simp add: grid_def)
  have r: "length (config p ! 0) = N" "length (config p ! Suc 0) = N" "length (config p ! 2) = N"
    using grid_row_length [OF g] h w by simp_all
  have "column_counts (config p) =
      map (\<lambda>(a, b, c). ind a + ind b + ind c)
        (zip (config p ! 0) (zip (config p ! 1) (config p ! 2)))"
    by (subst three_rows [OF l]) (simp add: column_counts_def)
  also have "\<dots> = counts p"
  proof (rule nth_equalityI)
    show "length (map (\<lambda>(a, b, c). ind a + ind b + ind c)
        (zip (config p ! 0) (zip (config p ! 1) (config p ! 2)))) = length (counts p)"
      by (simp add: r length_counts w)
  next
    fix j
    assume "j < length (map (\<lambda>(a, b, c). ind a + ind b + ind c)
        (zip (config p ! 0) (zip (config p ! 1) (config p ! 2))))"
    then have j: "j < N" by (simp add: r)
    then have "map (\<lambda>(a, b, c). ind a + ind b + ind c)
        (zip (config p ! 0) (zip (config p ! 1) (config p ! 2))) ! j
        = ind (config p ! 0 ! j) + ind (config p ! 1 ! j) + ind (config p ! 2 ! j)"
      by (simp add: r)
    also have "\<dots> = col p j" by (simp only: col_split ind_def)
    finally show "map (\<lambda>(a, b, c). ind a + ind b + ind c)
        (zip (config p ! 0) (zip (config p ! 1) (config p ! 2))) ! j = counts p ! j"
      using j by (simp add: counts_nth w)
  qed
  finally show ?thesis .
qed

lemma fast_next_board:
  assumes "board3 N p"
  shows "next_config p = fast_next (config p)"
proof (rule rectangle_eqI [where H = 3 and W = N])
  have g: "grid p" and b: "binary (config p)" and h: "height p = 3" and w: "width p = N"
    using assms by (simp_all add: board3_def)
  have l: "length (config p) = 3" using g h by (simp add: grid_def)
  have lt: "length (totals (column_counts (config p))) = N"
    by (simp add: column_counts_board [OF assms] length_totals length_counts w)
  show "length (next_config p) = 3" by (simp add: next_config_def h)
  show "length (fast_next (config p)) = 3" by (simp add: fast_next_def l)
  fix i :: nat
  assume i: "i < 3"
  then have ih: "i < height p" by (simp add: h)
  have lr: "length (config p ! i) = N" using grid_row_length [OF g ih] w by simp
  show "length (next_config p ! i) = N" using i by (simp add: next_config_def h w)
  show "length (fast_next (config p) ! i) = N"
    using i by (simp add: fast_next_def l next_row_def lt lr)
  fix j
  assume j: "j < N"
  then have jw: "j < width p" by (simp add: w)
  have "totals (column_counts (config p)) ! j = total p j"
    by (simp add: column_counts_board [OF assms] totals_counts [OF jw])
  then have "fast_next (config p) ! i ! j =
      (if total p j = 3 \<or> (total p j = 4 \<and> config p ! i ! j = Some 1) then Some 1 else Some 0)"
    using i j by (simp add: fast_next_def l next_row_def lt lr)
  moreover have "next_config p ! i ! j =
      (if total p j = 3 \<or> (total p j = 4 \<and> config p ! i ! j = Some 1) then Some 1 else Some 0)"
    using ih jw by (simp add: next_config_nth alive_next_total [OF g b h i jw])
  ultimately show "next_config p ! i ! j = fast_next (config p) ! i ! j" by simp
qed

lemma board3_pat: "board3 N p \<Longrightarrow> p = pat N (config p)"
  by (simp add: board3_def pat_def)

lemma board3_next: "board3 N p \<Longrightarrow> board3 N (next_pattern p)"
  by (simp add: board3_def grid_next_pattern binary_next) (simp add: next_pattern_def)

lemma next_pattern_pat:
  assumes "board3 N (pat N cfg)"
  shows "next_pattern (pat N cfg) = pat N (fast_next cfg)"
  using fast_next_board [OF assms] by (simp add: next_pattern_def pat_def)

lemma funpow_pat:
  assumes "board3 N (pat N cfg)"
  shows "(next_pattern ^^ k) (pat N cfg) = pat N ((fast_next ^^ k) cfg)
         \<and> board3 N (pat N ((fast_next ^^ k) cfg))"
proof (induction k)
  case 0
  show ?case using assms by simp
next
  case (Suc k)
  then have "next_pattern ((next_pattern ^^ k) (pat N cfg)) = pat N (fast_next ((fast_next ^^ k) cfg))"
    using next_pattern_pat by simp
  moreover have "board3 N (next_pattern ((next_pattern ^^ k) (pat N cfg)))"
    using Suc by (simp add: board3_next)
  ultimately show ?case by simp
qed

lemma recurs_pat:
  assumes "board3 N (pat N cfg)"
  shows "recurs next_pattern (pat N cfg) t l \<longleftrightarrow> recurs fast_next cfg t l"
  using funpow_pat [OF assms] by (simp add: recurs_def pat_def)

lemma lengths_pat:
  assumes "board3 N (pat N cfg)"
  shows "cycle_length next_pattern (pat N cfg) = cycle_length fast_next cfg"
    and "transient_length next_pattern (pat N cfg) = transient_length fast_next cfg"
proof -
  show c: "cycle_length next_pattern (pat N cfg) = cycle_length fast_next cfg"
    by (simp add: cycle_length_def recurs_pat [OF assms])
  show "transient_length next_pattern (pat N cfg) = transient_length fast_next cfg"
    by (simp add: transient_length_def c recurs_pat [OF assms])
qed

section \<open>Finding the cycle of a trajectory by its history\<close>

lemma lengths_from_distinct:
  fixes f :: "'a \<Rightarrow> 'a"
  assumes r: "recurs f x m l"
    and d: "distinct (map (\<lambda>i. (f ^^ i) x) [0..<m + l])"
  shows "transient_length f x = m \<and> cycle_length f x = l"
proof -
  let ?m = "transient_length f x" and ?l = "cycle_length f x"
  have rm: "recurs f x ?m ?l" by (rule transient_recurs [OF r])
  have le: "?m \<le> m" "?l \<le> l"
    using recurs_after_transient [OF r] cycle_length_le [OF r] by simp_all
  have "\<not> ?m + ?l < m + l"
  proof
    assume less: "?m + ?l < m + l"
    define xs where "xs = map (\<lambda>i. (f ^^ i) x) [0..<m + l]"
    have len: "length xs = m + l" by (simp add: xs_def)
    have a: "?m < length xs" "?m + ?l < length xs" using less len by simp_all
    have "xs ! (?m + ?l) = (f ^^ (?m + ?l)) x" "xs ! ?m = (f ^^ ?m) x"
      using less by (simp_all add: xs_def)
    then have "xs ! (?m + ?l) = xs ! ?m"
      using rm by (simp add: recurs_def)
    moreover have "distinct xs" using d by (simp add: xs_def)
    ultimately have "?m + ?l = ?m"
      using a by (simp only: nth_eq_iff_index_eq)
    then show False using rm by (simp add: recurs_def)
  qed
  then show ?thesis using le by simp
qed

lemma takeWhile_hit: "x \<in> set xs \<Longrightarrow> length (takeWhile (\<lambda>y. y \<noteq> x) xs) < length xs"
  by (induction xs) auto

lemma find_cycle_sound:
  assumes "find_cycle k (rev (map (\<lambda>i. (fast_next ^^ i) x) [0..<t])) ((fast_next ^^ t) x)
             = Some (m, l, y)"
    and "distinct (map (\<lambda>i. (fast_next ^^ i) x) [0..<t])"
  shows "transient_length fast_next x = m \<and> cycle_length fast_next x = l \<and>
         y = (fast_next ^^ m) x"
  using assms
proof (induction k arbitrary: t)
  case 0
  then show ?case by simp
next
  case (Suc k)
  let ?seq = "map (\<lambda>i. (fast_next ^^ i) x) [0..<t]"
  let ?hist = "rev ?seq"
  let ?x = "(fast_next ^^ t) x"
  show ?case
  proof (cases "?x \<in> set ?hist")
    case True
    let ?i = "length (takeWhile (\<lambda>y. y \<noteq> ?x) ?hist)"
    have i: "?i < length ?hist"
      using True by (rule takeWhile_hit)
    then have it: "?i < t" by simp
    have "?hist ! ?i = ?x"
      using nth_length_takeWhile [OF i] by simp
    moreover have "?hist ! ?i = (fast_next ^^ (t - Suc ?i)) x"
      using it by (simp add: rev_nth del: rev_map)
    ultimately have eq: "(fast_next ^^ (t - Suc ?i)) x = ?x" by simp
    from Suc.prems(1) True have res: "m = t - Suc ?i" "l = Suc ?i" "y = ?x"
      by (auto simp add: Let_def simp del: set_rev rev_map set_map map_map)
    have ml: "m + l = t" using it res by simp
    have "recurs fast_next x m l"
      using eq res ml by (simp add: recurs_def)
    from lengths_from_distinct [OF this] Suc.prems(2) ml
    have "transient_length fast_next x = m \<and> cycle_length fast_next x = l" by simp
    moreover have "y = (fast_next ^^ m) x" using eq res by simp
    ultimately show ?thesis by simp
  next
    case False
    have e: "fast_next ?x = (fast_next ^^ Suc t) x" by simp
    have h: "?x # ?hist = rev (map (\<lambda>i. (fast_next ^^ i) x) [0..<Suc t])" by simp
    from Suc.prems(1) False have
      "find_cycle k (rev (map (\<lambda>i. (fast_next ^^ i) x) [0..<Suc t])) ((fast_next ^^ Suc t) x)
         = Some (m, l, y)"
      unfolding e [symmetric] h [symmetric]
      by (simp del: set_rev rev_map set_map map_map upt_Suc funpow.simps)
    moreover have "distinct (map (\<lambda>i. (fast_next ^^ i) x) [0..<Suc t])"
      using Suc.prems(2) False by simp
    ultimately show ?thesis by (rule Suc.IH)
  qed
qed

lemma find_cycle_board:
  assumes b: "board3 N p"
    and f: "find_cycle k [] (config p) = Some (m, l, y)"
  shows "transient_length next_pattern p = m" "cycle_length next_pattern p = l"
    "landing p = pat N y"
proof -
  have p: "p = pat N (config p)" by (rule board3_pat [OF b])
  have bp: "board3 N (pat N (config p))" using b p by simp
  from find_cycle_sound [of k "config p" 0 m l y] f
  have s: "transient_length fast_next (config p) = m" "cycle_length fast_next (config p) = l"
    "y = (fast_next ^^ m) (config p)"
    by simp_all
  show m: "transient_length next_pattern p = m"
    using lengths_pat(2) [OF bp] s(1) p by simp
  show "cycle_length next_pattern p = l"
    using lengths_pat(1) [OF bp] s(2) p by simp
  have "landing p = (next_pattern ^^ m) (pat N (config p))"
    using m p by (simp add: landing_def)
  then show "landing p = pat N y"
    using funpow_pat [OF bp, of m] s(3) by simp
qed

section \<open>The boards of width 4, one by one\<close>

section \<open>The search on boards of width 4\<close>

lemma boards_checked: "all_boards 4 search_check"
  by code_simp

lemma sources_checked:
  "source_check (layout 4 [(0, 0), (0, 1), (1, 0)]) osc_left"
  "source_check (layout 4 [(0, 1), (0, 2), (1, 1)]) osc_middle"
  "source_check (layout 4 [(0, 0), (0, 3), (1, 0)]) osc_ends"
  by code_simp+

lemma sources_before_right:
  "before (layout 4 [(0, 0), (0, 1), (1, 0)]) osc_right"
  by code_simp

lemma all_rows_covers:
  assumes "all_rows P n acc" "length r = n" "set r \<subseteq> {Some 0, Some 1}"
  shows "P (rev r @ acc)"
  using assms
proof (induction n arbitrary: acc r)
  case 0
  then show ?case by simp
next
  case (Suc n)
  then obtain x xs where r: "r = x # xs" by (cases r) auto
  with Suc.prems have xs: "length xs = n" "set xs \<subseteq> {Some 0, Some 1}" and x: "x = Some 0 \<or> x = Some 1"
    by auto
  from Suc.prems(1) x have "all_rows P n (x # acc)" by auto
  from Suc.IH [OF this xs] show ?case by (simp add: r)
qed

lemma all_rows_row:
  assumes "all_rows P n []" "length r = n" "set r \<subseteq> {Some 0, Some 1}"
  shows "P r"
  using all_rows_covers [OF assms(1), of "rev r"] assms(2,3) by simp

lemma all_boards_covers:
  assumes a: "all_boards N P" and b: "board3 N p"
  shows "P (config p)"
proof -
  have g: "grid p" and bin: "binary (config p)" and h: "height p = 3" and w: "width p = N"
    using b by (simp_all add: board3_def)
  have l: "length (config p) = 3" using g h by (simp add: grid_def)
  have row: "length (config p ! i) = N \<and> set (config p ! i) \<subseteq> {Some 0, Some 1}" if "i < 3" for i
  proof -
    have "config p ! i \<in> set (config p)" using that l by simp
    then show ?thesis
      using grid_row_length [OF g, of i] that h w bin by (auto simp: binary_def)
  qed
  have 0: "all_rows (\<lambda>r1. all_rows (\<lambda>r2. P [config p ! 0, r1, r2]) N []) N []"
    using all_rows_row [OF a [unfolded all_boards_def], of "config p ! 0"] row [of 0] by simp
  have 1: "all_rows (\<lambda>r2. P [config p ! 0, config p ! 1, r2]) N []"
    using all_rows_row [OF 0, of "config p ! 1"] row [of 1] by simp
  have "P [config p ! 0, config p ! 1, config p ! 2]"
    using all_rows_row [OF 1, of "config p ! 2"] row [of 2] by simp
  then show ?thesis using three_rows [OF l] by simp
qed

lemma board_checked:
  assumes "board3 4 p"
  shows "search_check (config p)"
  by (rule all_boards_covers [OF boards_checked assms])

lemma cyclic_boards:
  assumes b: "board3 4 p" and c: "cyclic p"
  shows "config p \<in> {osc_left, osc_middle, osc_right, osc_ends}"
proof (cases "settles 6 (column_counts (config p))")
  case True
  then have "settles 6 (counts p)" by (simp add: column_counts_board [OF b])
  then have "cycle_length next_pattern p \<le> 1"
    using b by (intro settles_cycle_length) (simp_all add: board3_def)
  then show ?thesis using c by (simp add: cyclic_def)
next
  case False
  with board_checked [OF b] obtain m l y where
    f: "find_cycle 8 [] (config p) = Some (m, l, y)"
    and k: "m = 0 \<longrightarrow> config p \<in> set [osc_left, osc_middle, osc_right, osc_ends]"
    by (auto simp: search_check_def split: option.splits if_splits)
  from find_cycle_board(1) [OF b f] c have "m = 0" by (simp add: cyclic_def)
  with k show ?thesis by simp
qed

lemma right_landing_has_earlier_image:
  assumes b: "board3 4 p" and l: "1 < cycle_length next_pattern p"
    and r: "landing p = pat 4 osc_right" and ne: "config p \<noteq> osc_right"
  shows "\<exists>q\<in>set (flips (config p)). before q (config p)"
proof (cases "settles 6 (column_counts (config p))")
  case True
  then have "settles 6 (counts p)" by (simp add: column_counts_board [OF b])
  then have "cycle_length next_pattern p \<le> 1"
    using b by (intro settles_cycle_length) (simp_all add: board3_def)
  then show ?thesis using l by simp
next
  case False
  with board_checked [OF b] obtain m l' y where
    f: "find_cycle 8 [] (config p) = Some (m, l', y)"
    and k: "y = osc_right \<and> config p \<noteq> osc_right \<longrightarrow>
              list_ex (\<lambda>q. before q (config p)) (flips (config p))"
    by (auto simp: search_check_def split: option.splits if_splits)
  from find_cycle_board(3) [OF b f] r have "y = osc_right" by (simp add: pat_def)
  with k ne show ?thesis by (simp add: list_ex_iff)
qed

lemma images_flips:
  assumes "board3 N p"
  shows "images p = map (pat N) (flips (config p))"
  using assms by (simp add: images_def flips_def pat_def board3_def)

lemma board3_images:
  assumes "board3 N p" "q \<in> set (images p)"
  shows "board3 N q"
  using assms grid_images [of p q] binary_images [of p q] shape_images [of q p]
  by (simp add: board3_def)

lemma empty_start: "y \<in> fst ({}, {}) \<union> snd ({}, {}) \<Longrightarrow> board3 N y"
  by simp

lemma source_found:
  assumes b: "board3 4 (pat 4 c0)" and chk: "source_check c0 y"
    and L: "all_subsets 4 = Q1 @ s0 # Q2" and s0: "candidate 4 s0 = pat 4 c0"
  shows "pat 4 y \<in> snd (run 4 (Q1 @ [s0]) ({}, {}))"
proof -
  have f: "find_cycle 8 [] (config (pat 4 c0)) = Some (1, 2, y)"
    using chk by (simp add: source_check_def pat_def)
  have fl: "\<not> before q c0 \<and> q \<notin> {osc_left, osc_middle, osc_right, osc_ends}"
    if "q \<in> set (flips c0)" for q
    using chk that by (simp add: source_check_def list_all_iff)
  have c: "candidate (nat 4) s0 = pat 4 c0" using s0 by simp
  have free: "q \<notin> fst (run 4 Q1 ({}, {}))" if q: "q \<in> set (images (candidate (nat 4) s0))" for q
  proof
    assume v: "q \<in> fst (run 4 Q1 ({}, {}))"
    from q obtain q0 where q0: "q0 \<in> set (flips c0)" "q = pat 4 q0"
      unfolding c images_flips [OF b] by (auto simp: pat_def)
    have bq: "board3 4 q" using board3_images [OF b] q c by simp
    from run_visited [OF v] show False
    proof
      assume "q \<in> candidate (nat 4) ` set Q1"
      from prefix_before [OF L this] have "before q0 c0"
        by (simp add: s0 q0(2) pat_def)
      with fl [OF q0(1)] show False by simp
    next
      assume "cyclic q"
      from cyclic_boards [OF bq this] fl [OF q0(1)] show False
        by (simp add: q0(2) pat_def)
    qed
  qed
  have "landing (candidate (nat 4) s0) \<in> snd (run 4 (Q1 @ s0 # []) ({}, {}))"
  proof (rule processed_adds)
    show "\<forall>q\<in>set (images (candidate (nat 4) s0)). q \<notin> fst (run 4 Q1 ({}, {}))"
      using free by blast
    show "1 < cycle_length next_pattern (candidate (nat 4) s0)"
      unfolding c using find_cycle_board(2) [OF b f] by simp
  qed simp_all
  moreover have "landing (candidate (nat 4) s0) = pat 4 y"
    unfolding c by (rule find_cycle_board(3) [OF b f])
  ultimately show ?thesis by simp
qed

lemma source_in_result:
  assumes b: "board3 4 (pat 4 c0)" and chk: "source_check c0 y"
  shows "pat 4 y \<in> snd (run 4 (all_subsets 4) ({}, {}))"
proof -
  have "board3 (nat 4) (pat 4 c0)" using b by simp
  from every_board_is_candidate [OF this] obtain s0 where
    s0: "s0 \<in> set (all_subsets 4)" "candidate 4 s0 = pat 4 c0" by auto
  from split_list [OF s0(1)] obtain Q1 Q2 where L: "all_subsets 4 = Q1 @ s0 # Q2" by blast
  have "pat 4 y \<in> snd (run 4 (Q1 @ [s0]) ({}, {}))"
    by (rule source_found [OF b chk L s0(2)])
  then show ?thesis
    using run_mono_snd [of 4 "Q1 @ [s0]" "({}, {})" Q2] by (auto simp: L)
qed

lemma pat_layout: "pat N (layout N s) = candidate N s"
  by (simp add: pat_def candidate_def)

lemma board3_source: "board3 4 (pat 4 (layout 4 s))"
  unfolding pat_layout by (rule candidate_board3)

lemma left_in_result: "pat 4 osc_left \<in> snd (run 4 (all_subsets 4) ({}, {}))"
  by (rule source_in_result [OF board3_source sources_checked(1)])

lemma middle_in_result: "pat 4 osc_middle \<in> snd (run 4 (all_subsets 4) ({}, {}))"
  by (rule source_in_result [OF board3_source sources_checked(2)])

lemma ends_in_result: "pat 4 osc_ends \<in> snd (run 4 (all_subsets 4) ({}, {}))"
  by (rule source_in_result [OF board3_source sources_checked(3)])

lemma run_board3_4:
  assumes "y \<in> fst (run 4 P ({}, {})) \<union> snd (run 4 P ({}, {}))"
  shows "board3 4 y"
proof -
  have "board3 (nat 4) y"
    by (rule run_board3 [where st = "({}, {})" and P = P]) (use assms in simp_all)
  then show ?thesis by simp
qed

lemma cyclic_landing:
  assumes "cyclic c"
  shows "landing c = c"
  using assms by (simp add: cyclic_def landing_def)

lemma right_not_in_result: "pat 4 osc_right \<notin> snd (run 4 (all_subsets 4) ({}, {}))"
proof
  assume "pat 4 osc_right \<in> snd (run 4 (all_subsets 4) ({}, {}))"
  from run_found_source [OF _ _ this] obtain P1 s P2 where
    L: "all_subsets 4 = P1 @ s # P2"
    and x: "pat 4 osc_right = landing (candidate 4 s)"
    and l: "1 < cycle_length next_pattern (candidate 4 s)"
    and free: "\<forall>q\<in>set (images (candidate 4 s)). q \<notin> fst (run 4 P1 ({}, {}))"
    by auto
  let ?c = "candidate 4 s"
  have b: "board3 4 ?c" by (rule candidate_board3)
  have im: "images ?c = map (pat 4) (flips (config ?c))" by (rule images_flips [OF b])
  have fresh: "?c \<notin> candidate 4 ` set P1"
    using candidate_not_in_prefix [OF L] by simp
  show False
  proof (cases "config ?c = osc_right")
    case False
    from right_landing_has_earlier_image [OF b l x [symmetric] False] obtain q0 where
      q0: "q0 \<in> set (flips (config ?c))" "before q0 (config ?c)" by blast
    let ?q = "pat 4 q0"
    have q: "?q \<in> set (images ?c)" using q0(1) unfolding im by simp
    have bq: "board3 4 ?q" by (rule board3_images [OF b q])
    have "before (config ?q) (config ?c)" using q0(2) by (simp add: pat_def)
    with before_prefix [OF L, of ?q] bq have qp: "?q \<in> candidate 4 ` set P1" by simp
    have nc: "\<not> cyclic ?c"
    proof
      assume "cyclic ?c"
      from cyclic_landing [OF this] x have "config ?c = osc_right"
        by (simp add: pat_def candidate_def)
      with False show False by simp
    qed
    have "\<exists>q'\<in>set (images ?c). q' \<in> fst (run 4 P1 ({}, {}))"
      using earlier_image_blocks [where n = 4 and s = s and P = P1 and q = ?q] nc fresh q qp
      by simp
    with free show False by blast
  next
    case True
    have c: "?c = pat 4 osc_right" using board3_pat [OF b] True by simp
    let ?l = "pat 4 (layout 4 source_left)"
    have bl: "board3 4 ?l" by (rule board3_source)
    have "before (config ?l) (config ?c)"
      using sources_before_right by (simp add: True pat_def source_left_def)
    with before_prefix [OF L, of ?l] bl obtain sl where
      sl: "sl \<in> set P1" "candidate 4 sl = ?l" by auto
    from split_list [OF sl(1)] obtain A B where P1: "P1 = A @ sl # B" by blast
    have L': "all_subsets 4 = A @ sl # (B @ s # P2)" by (simp add: L P1)
    have chk: "source_check (layout 4 source_left) osc_left"
      using sources_checked(1) by (simp add: source_left_def)
    have "pat 4 osc_left \<in> snd (run 4 (A @ [sl]) ({}, {}))"
      by (rule source_found [OF board3_source chk L' sl(2)])
    with run_mono_snd [of 4 "A @ [sl]" "({}, {})" B]
    have "pat 4 osc_left \<in> snd (run 4 P1 ({}, {}))" by (auto simp: P1)
    from run_found [OF this] have v: "pat 4 osc_left \<in> fst (run 4 P1 ({}, {}))" by simp
    have "map rev osc_right = osc_left" by (simp add: osc_right_def osc_left_def)
    then have "pat 4 osc_left \<in> set (images ?c)"
      unfolding c by (simp add: images_def pat_def)
    with free v show False by blast
  qed
qed

lemma search_result_4:
  "snd (run 4 (all_subsets 4) ({}, {})) = {pat 4 osc_middle, pat 4 osc_left, pat 4 osc_ends}"
proof (intro equalityI subsetI)
  fix x assume x: "x \<in> snd (run 4 (all_subsets 4) ({}, {}))"
  from run_found [OF x] have c: "cyclic x" and v: "x \<in> fst (run 4 (all_subsets 4) ({}, {}))"
    by simp_all
  have b: "board3 4 x" by (rule run_board3_4 [of _ "all_subsets 4"]) (use v in simp)
  from cyclic_boards [OF b c] have "config x \<in> {osc_left, osc_middle, osc_right, osc_ends}" .
  moreover have "x = pat 4 (config x)" by (rule board3_pat [OF b])
  ultimately have "x \<in> {pat 4 osc_left, pat 4 osc_middle, pat 4 osc_right, pat 4 osc_ends}"
    by auto
  moreover have "x \<noteq> pat 4 osc_right" using x right_not_in_result by blast
  ultimately show "x \<in> {pat 4 osc_middle, pat 4 osc_left, pat 4 osc_ends}" by auto
next
  fix x assume "x \<in> {pat 4 osc_middle, pat 4 osc_left, pat 4 osc_ends}"
  then show "x \<in> snd (run 4 (all_subsets 4) ({}, {}))"
    using left_in_result middle_in_result ends_in_result by auto
qed

lemma oscillators_of_width_4:
  "find_oscillators 4 = Some (Inr {pat 4 osc_middle, pat 4 osc_left, pat 4 osc_ends})"
  by (simp add: search_run search_result_4)

lemma period_2:
  "detect_cycle (pat 4 osc_middle) = Some (Inr (0, 2))"
  "detect_cycle (pat 4 osc_left) = Some (Inr (0, 2))"
  "detect_cycle (pat 4 osc_ends) = Some (Inr (0, 2))"
  "step_times 2 (pat 4 osc_middle) = Inr (pat 4 osc_middle)"
  "step_times 2 (pat 4 osc_left) = Inr (pat 4 osc_left)"
  "step_times 2 (pat 4 osc_ends) = Inr (pat 4 osc_ends)"
  by code_simp+

lemma three_distinct:
  "card {pat 4 osc_middle, pat 4 osc_left, pat 4 osc_ends} = 3"
  by (simp add: pat_def osc_middle_def osc_left_def osc_ends_def)

text \<open>
  C4. The search on boards of width 4 returns a set of exactly three patterns, the boards
  \<open>.oo.\<close>, \<open>oo..\<close> and \<open>o..o\<close> (each row repeated three times), and each of them is on a
  cycle of period 2: \<open>detect_cycle\<close> finds no transient and period 2 from it, and two
  steps lead back to it.
\<close>

theorem search_of_width_4:
  "find_oscillators 4 = Some (Inr {pat 4 osc_middle, pat 4 osc_left, pat 4 osc_ends}) \<and>
   card {pat 4 osc_middle, pat 4 osc_left, pat 4 osc_ends} = 3 \<and>
   config (pat 4 osc_middle) = map (map Some) [[0, 1, 1, 0], [0, 1, 1, 0], [0, 1, 1, 0]] \<and>
   config (pat 4 osc_left) = map (map Some) [[1, 1, 0, 0], [1, 1, 0, 0], [1, 1, 0, 0]] \<and>
   config (pat 4 osc_ends) = map (map Some) [[1, 0, 0, 1], [1, 0, 0, 1], [1, 0, 0, 1]] \<and>
   detect_cycle (pat 4 osc_middle) = Some (Inr (0, 2)) \<and>
   detect_cycle (pat 4 osc_left) = Some (Inr (0, 2)) \<and>
   detect_cycle (pat 4 osc_ends) = Some (Inr (0, 2)) \<and>
   step_times 2 (pat 4 osc_middle) = Inr (pat 4 osc_middle) \<and>
   step_times 2 (pat 4 osc_left) = Inr (pat 4 osc_left) \<and>
   step_times 2 (pat 4 osc_ends) = Inr (pat 4 osc_ends)"
  using oscillators_of_width_4 three_distinct period_2
  by (simp add: pat_def osc_middle_def osc_left_def osc_ends_def)

theorem oscillators_on_cycles_witness:
  "\<exists>p. 2 \<le> p \<and> detect_cycle (pat 4 osc_left) = Some (Inr (0, p)) \<and>
       step_times p (pat 4 osc_left) = Inr (pat 4 osc_left)"
  using oscillators_on_cycles [of 4] by (simp add: oscillators_of_width_4)

end
